theory Spec2Isabelle
  imports Complex_Main "HOL-Library.AList"
begin

section \<open>NexFlow: flows, the step interpreter, the due-time check and the run store\<close>

text \<open>
  A shallow embedding of the TypeScript sources \<^verbatim>\<open>src/lib/cron.ts\<close>,
  \<^verbatim>\<open>src/lib/template.ts\<close>, \<^verbatim>\<open>src/lib/stepExecutor.ts\<close>, \<^verbatim>\<open>src/lib/utils.ts\<close>,
  \<^verbatim>\<open>src/schemas/FlowConfig.ts\<close> and \<^verbatim>\<open>src/durable/NexFlowManager.ts\<close>.

  Conventions of the model.
  \<^item> A JavaScript string is a \<^typ>\<open>string\<close>; the text handled is ASCII, one \<^typ>\<open>char\<close> per
    code unit.
  \<^item> A JavaScript object used as a dictionary is an association list (when it is a value
    that steps read) or a map (the stored flows and histories) of its own properties. A
    lookup \<^verbatim>\<open>obj[key]\<close> that finds no own property goes on through the prototype chain:
    what the built-in prototypes hold is a parameter (\<open>inherited\<close>).
  \<^item> An exception is a value: a function that may throw returns \<open>string + 'a\<close>, the left
    injection carrying the message of the error.
  \<^item> What the program takes from its runtime and from the outside world (the clock, the
    network, \<^verbatim>\<open>JSON.parse\<close>, \<^verbatim>\<open>JSON.stringify\<close>, the conversion between numbers and their
    text, the built-in prototypes, the URL parser, the cron library) is a parameter,
    collected in the record \<open>host\<close>.
\<close>

subsection \<open>Strings\<close>

definition is_space :: "char \<Rightarrow> bool" where
  "is_space c = (c \<in> set [CHR '' '', CHR 0x09, CHR 0x0A, CHR 0x0B, CHR 0x0C, CHR 0x0D])"

text \<open>\<^verbatim>\<open>String.prototype.trim\<close>.\<close>

definition trim :: "string \<Rightarrow> string" where
  "trim s = rev (dropWhile is_space (rev (dropWhile is_space s)))"

text \<open>\<^verbatim>\<open>s.split(c)\<close> for a one-character separator: never the empty list.\<close>

fun split_on :: "char \<Rightarrow> string \<Rightarrow> string list" where
  "split_on c [] = [[]]"
| "split_on c (x # xs) =
     (if x = c then [] # split_on c xs
      else (case split_on c xs of
              [] \<Rightarrow> [[x]]
            | p # ps \<Rightarrow> (x # p) # ps))"

definition startsWith :: "string \<Rightarrow> string \<Rightarrow> bool" where
  "startsWith s p = (take (length p) s = p)"

definition digit_char :: "nat \<Rightarrow> char" where
  "digit_char d = char_of (48 + d)"

text \<open>The decimal text of a natural number, as a template literal prints it.\<close>

fun show_nat :: "nat \<Rightarrow> string" where
  "show_nat n = (if n < 10 then [digit_char n] else show_nat (n div 10) @ [digit_char (n mod 10)])"

declare show_nat.simps [simp del]

definition is_digit :: "char \<Rightarrow> bool" where
  "is_digit c = (48 \<le> (of_char c :: nat) \<and> (of_char c :: nat) \<le> 57)"

text \<open>The value of a string of decimal digits (\<^verbatim>\<open>Number\<close> of the text \<^verbatim>\<open>\d+\<close> matched).\<close>

definition digits_value :: "string \<Rightarrow> nat" where
  "digits_value s = foldl (\<lambda>acc c. 10 * acc + (of_char c - 48)) 0 s"

text \<open>Comparison of strings by code units, the order of \<^verbatim>\<open><\<close> on JavaScript strings.\<close>

fun str_lt :: "string \<Rightarrow> string \<Rightarrow> bool" where
  "str_lt [] [] = False"
| "str_lt [] (y # ys) = True"
| "str_lt (x # xs) [] = False"
| "str_lt (x # xs) (y # ys) =
     (if (of_char x :: nat) < of_char y then True
      else if (of_char y :: nat) < of_char x then False
      else str_lt xs ys)"

definition str_le :: "string \<Rightarrow> string \<Rightarrow> bool" where
  "str_le a b = (str_lt a b \<or> a = b)"

text \<open>\<^verbatim>\<open>String.prototype.toLowerCase\<close> on ASCII text.\<close>

definition lower_char :: "char \<Rightarrow> char" where
  "lower_char c =
     (if 65 \<le> (of_char c :: nat) \<and> (of_char c :: nat) \<le> 90 then char_of (of_char c + 32 :: nat)
      else c)"

definition toLowerCase :: "string \<Rightarrow> string" where
  "toLowerCase s = map lower_char s"

text \<open>The double quote character, as a string.\<close>

definition dquote :: string where
  "dquote = [CHR 0x22]"

text \<open>\<^verbatim>\<open>xs.join(sep)\<close> of strings.\<close>

fun join :: "string \<Rightarrow> string list \<Rightarrow> string" where
  "join sep [] = []"
| "join sep [x] = x"
| "join sep (x # y # ys) = x @ sep @ join sep (y # ys)"

subsection \<open>JavaScript values\<close>

text \<open>
  A number is \<^verbatim>\<open>NaN\<close>, an infinity or a finite value; every finite double is a rational.
\<close>

datatype jsnum = NaN | NegInf | Fin rat | PosInf

fun isNaN :: "jsnum \<Rightarrow> bool" where
  "isNaN NaN = True"
| "isNaN _ = False"

fun num_lt :: "jsnum \<Rightarrow> jsnum \<Rightarrow> bool" where
  "num_lt NaN _ = False"
| "num_lt _ NaN = False"
| "num_lt NegInf NegInf = False"
| "num_lt NegInf _ = True"
| "num_lt PosInf _ = False"
| "num_lt (Fin a) NegInf = False"
| "num_lt (Fin a) (Fin b) = (a < b)"
| "num_lt (Fin a) PosInf = True"

fun num_eq :: "jsnum \<Rightarrow> jsnum \<Rightarrow> bool" where
  "num_eq NaN _ = False"
| "num_eq _ NaN = False"
| "num_eq a b = (a = b)"

definition num_le :: "jsnum \<Rightarrow> jsnum \<Rightarrow> bool" where
  "num_le a b = (num_lt a b \<or> num_eq a b)"

text \<open>
  \<open>JObj\<close> is a plain object, given by its own properties; \<open>JDerived kvs p\<close> is an object
  with the own properties \<open>kvs\<close> whose prototype is the object \<open>p\<close>; \<open>JFunction n\<close> is the
  built-in function of name \<open>n\<close>.
\<close>

datatype jsval =
    JUndefined
  | JNull
  | JBool bool
  | JNum jsnum
  | JStr string
  | JArr "jsval list"
  | JObj "(string \<times> jsval) list"
  | JDerived "(string \<times> jsval) list" jsval
  | JFunction string

text \<open>The values that count as true in a condition.\<close>

fun truthy :: "jsval \<Rightarrow> bool" where
  "truthy JUndefined = False"
| "truthy JNull = False"
| "truthy (JBool b) = b"
| "truthy (JNum n) = (n \<noteq> NaN \<and> n \<noteq> Fin 0)"
| "truthy (JStr s) = (s \<noteq> [])"
| "truthy _ = True"


subsection \<open>The runtime and the outside world\<close>

text \<open>A \<^verbatim>\<open>Date\<close>: milliseconds since the epoch, or \<^verbatim>\<open>Invalid Date\<close> (\<open>None\<close>).\<close>

type_synonym date = "int option"

record http_request =
  req_url :: string
  req_method :: string
  req_headers :: "(string \<times> string) list"
  req_body :: "string option"

text \<open>
  A response as the program reads it: \<^verbatim>\<open>resp.status\<close>, \<^verbatim>\<open>resp.headers\<close> and the result of
  \<^verbatim>\<open>await resp.text()\<close>, which may reject.
\<close>

record http_response =
  resp_status :: nat
  resp_headers :: "(string \<times> string) list"
  resp_text :: "string + string"

text \<open>
  What one call of \<^verbatim>\<open>fetch\<close> does when nothing aborts it: after so many milliseconds it
  either has answered, or has rejected with an error of the given message.
\<close>

datatype net_result =
    Responded nat http_response
  | Rejected nat string

record host =
  StringToNumber :: "string \<Rightarrow> jsnum"
  NumberToString :: "jsnum \<Rightarrow> string"
  JSON_parse :: "string \<Rightarrow> string + jsval"
  JSON_stringify :: "jsval \<Rightarrow> string"
  toISOString :: "nat \<Rightarrow> string"
  network :: "nat \<Rightarrow> http_request \<Rightarrow> net_result"
  randomUUID :: "nat \<Rightarrow> string"
  Date_parse :: "string \<Rightarrow> date"
  cron_next :: "string \<Rightarrow> date \<Rightarrow> string + date"
  inherited :: "jsval \<Rightarrow> string \<Rightarrow> jsval"
  URL_ok :: "string \<Rightarrow> bool"

text \<open>
  \<open>toISOString h t\<close> is \<^verbatim>\<open>new Date().toISOString()\<close> and \<open>network h t\<close> the network, at the
  \<open>t\<close>-th interaction of the run with the outside world; \<open>cron_next h s d\<close> is
  \<^verbatim>\<open>CronExpressionParser.parse(s, {currentDate: d, tz: "UTC"}).next().toDate()\<close> of the
  cron-parser library, the next occurrence of \<open>s\<close> strictly after \<open>d\<close> in UTC, or the
  text of the error it throws. \<open>inherited h v k\<close> is what the lookup of the member \<open>k\<close>
  gives on a value \<open>v\<close> that has no own property \<open>k\<close> among those modelled here: what the
  built-in prototype of \<open>v\<close> holds (\<^verbatim>\<open>Object.prototype\<close> for a plain object), such as the
  function \<^verbatim>\<open>Object\<close> for \<^verbatim>\<open>constructor\<close>, and \<^verbatim>\<open>undefined\<close> when there is no such member.
  \<open>URL_ok h s\<close> says that \<^verbatim>\<open>new URL(s)\<close> does not throw, which is what \<^verbatim>\<open>z.string().url()\<close>
  checks.
\<close>

text \<open>\<^verbatim>\<open>String(v)\<close>; an array joins its elements, \<^verbatim>\<open>null\<close> and \<^verbatim>\<open>undefined\<close> as empty text.\<close>

fun ToString :: "host \<Rightarrow> jsval \<Rightarrow> string"
  and join_elements :: "host \<Rightarrow> jsval list \<Rightarrow> string" where
  "ToString h JUndefined = ''undefined''"
| "ToString h JNull = ''null''"
| "ToString h (JBool b) = (if b then ''true'' else ''false'')"
| "ToString h (JNum n) = NumberToString h n"
| "ToString h (JStr s) = s"
| "ToString h (JArr xs) = join_elements h xs"
| "ToString h (JObj kvs) = ''[object Object]''"
| "ToString h (JDerived kvs p) = ''[object Object]''"
| "ToString h (JFunction n) = ''function '' @ n @ ''() { [native code] }''"
| "join_elements h [] = []"
| "join_elements h (x # xs) =
     (case x of JUndefined \<Rightarrow> [] | JNull \<Rightarrow> [] | _ \<Rightarrow> ToString h x)
     @ (if xs = [] then [] else '','' @ join_elements h xs)"

text \<open>\<^verbatim>\<open>Number(v)\<close>.\<close>

fun ToNumber :: "host \<Rightarrow> jsval \<Rightarrow> jsnum" where
  "ToNumber h JUndefined = NaN"
| "ToNumber h JNull = Fin 0"
| "ToNumber h (JBool b) = (if b then Fin 1 else Fin 0)"
| "ToNumber h (JNum n) = n"
| "ToNumber h (JStr s) = StringToNumber h s"
| "ToNumber h (JArr xs) = StringToNumber h (ToString h (JArr xs))"
| "ToNumber h (JObj kvs) = StringToNumber h (ToString h (JObj kvs))"
| "ToNumber h (JDerived kvs p) = StringToNumber h (ToString h (JDerived kvs p))"
| "ToNumber h (JFunction n) = StringToNumber h (ToString h (JFunction n))"

text \<open>
  \<^verbatim>\<open>a == b\<close> where \<open>b\<close> is a string or a number: equal types compare strictly, a string
  and a number compare as numbers, a boolean is a number first, an array, object or
  function is its text first, \<^verbatim>\<open>null\<close> and \<^verbatim>\<open>undefined\<close> equal neither.
\<close>

fun loose_eq :: "host \<Rightarrow> jsval \<Rightarrow> jsval \<Rightarrow> bool" where
  "loose_eq h (JNum a) (JNum b) = num_eq a b"
| "loose_eq h (JStr a) (JStr b) = (a = b)"
| "loose_eq h (JNum a) (JStr b) = num_eq a (StringToNumber h b)"
| "loose_eq h (JStr a) (JNum b) = num_eq (StringToNumber h a) b"
| "loose_eq h (JBool a) (JNum b) = num_eq (ToNumber h (JBool a)) b"
| "loose_eq h (JBool a) (JStr b) = num_eq (ToNumber h (JBool a)) (StringToNumber h b)"
| "loose_eq h (JArr xs) (JNum b) = num_eq (StringToNumber h (ToString h (JArr xs))) b"
| "loose_eq h (JArr xs) (JStr b) = (ToString h (JArr xs) = b)"
| "loose_eq h (JObj kvs) (JNum b) = num_eq (StringToNumber h (ToString h (JObj kvs))) b"
| "loose_eq h (JObj kvs) (JStr b) = (ToString h (JObj kvs) = b)"
| "loose_eq h (JDerived kvs p) (JNum b)
     = num_eq (StringToNumber h (ToString h (JDerived kvs p))) b"
| "loose_eq h (JDerived kvs p) (JStr b) = (ToString h (JDerived kvs p) = b)"
| "loose_eq h (JFunction n) (JNum b) = num_eq (StringToNumber h (ToString h (JFunction n))) b"
| "loose_eq h (JFunction n) (JStr b) = (ToString h (JFunction n) = b)"
| "loose_eq h _ _ = False"

text \<open>An array index: the canonical decimal text of a natural number.\<close>

definition array_index :: "string \<Rightarrow> nat option" where
  "array_index k =
     (if k \<noteq> [] \<and> list_all is_digit k \<and> show_nat (digits_value k) = k
      then Some (digits_value k) else None)"

text \<open>The own property \<open>k\<close> of a value, if it has one.\<close>

fun own_property :: "jsval \<Rightarrow> string \<Rightarrow> jsval option" where
  "own_property (JObj kvs) k = map_of kvs k"
| "own_property (JDerived kvs p) k = map_of kvs k"
| "own_property (JFunction n) k = (if k = ''name'' then Some (JStr n) else None)"
| "own_property (JArr xs) k =
     (if k = ''length'' then Some (JNum (Fin (of_nat (length xs))))
      else (case array_index k of
              Some i \<Rightarrow> (if i < length xs then Some (xs ! i) else None)
            | None \<Rightarrow> None))"
| "own_property (JStr s) k =
     (if k = ''length'' then Some (JNum (Fin (of_nat (length s))))
      else (case array_index k of
              Some i \<Rightarrow> (if i < length s then Some (JStr [s ! i]) else None)
            | None \<Rightarrow> None))"
| "own_property _ k = None"

text \<open>
  \<^verbatim>\<open>current[part]\<close>: the own property, or else what the prototype chain gives. The member
  \<^verbatim>\<open>__proto__\<close> of an object is its prototype; a chain of prototypes that ends with \<^verbatim>\<open>null\<close>
  gives \<^verbatim>\<open>undefined\<close> there.
\<close>

fun getProp :: "host \<Rightarrow> jsval \<Rightarrow> string \<Rightarrow> jsval" where
  "getProp h (JDerived kvs p) k =
     (case map_of kvs k of
        Some x \<Rightarrow> x
      | None \<Rightarrow> if k = ''__proto__'' then p else getProp h p k)"
| "getProp h JNull k = JUndefined"
| "getProp h JUndefined k = JUndefined"
| "getProp h v k = (case own_property v k of Some x \<Rightarrow> x | None \<Rightarrow> inherited h v k)"

text \<open>
  \<^verbatim>\<open>obj[key] = v\<close> on the own properties of a plain object: an assignment to \<^verbatim>\<open>__proto__\<close>
  creates no own property (it goes to the setter that \<^verbatim>\<open>Object.prototype\<close> has for it),
  unless the object has that own property already.
\<close>

definition sets_prototype :: "string \<Rightarrow> (string \<times> jsval) list \<Rightarrow> bool" where
  "sets_prototype k kvs = (k = ''__proto__'' \<and> map_of kvs k = None)"

definition set_own :: "string \<Rightarrow> jsval \<Rightarrow> (string \<times> jsval) list \<Rightarrow> (string \<times> jsval) list" where
  "set_own k v kvs = (if sets_prototype k kvs then kvs else AList.update k v kvs)"

text \<open>The same on a dictionary held as a map.\<close>

definition member_set :: "string \<Rightarrow> 'a \<Rightarrow> (string \<rightharpoonup> 'a) \<Rightarrow> (string \<rightharpoonup> 'a)" where
  "member_set k v m = (if k = ''__proto__'' \<and> m k = None then m else m(k \<mapsto> v))"

text \<open>
  What an empty plain object gives for the member \<open>k\<close>, and with it every plain object
  that has no own property \<open>k\<close>.
\<close>

definition inherited_member :: "host \<Rightarrow> string \<Rightarrow> jsval" where
  "inherited_member h k = inherited h (JObj []) k"

text \<open>The own enumerable properties of a value, which \<^verbatim>\<open>{...v}\<close> copies.\<close>

fun own_enumerable :: "jsval \<Rightarrow> (string \<times> jsval) list" where
  "own_enumerable (JObj kvs) = kvs"
| "own_enumerable (JDerived kvs p) = kvs"
| "own_enumerable (JArr xs) = zip (map show_nat [0..<length xs]) xs"
| "own_enumerable (JStr s) = zip (map show_nat [0..<length s]) (map (\<lambda>c. JStr [c]) s)"
| "own_enumerable _ = []"

subsection \<open>\<^verbatim>\<open>src/lib/template.ts\<close>\<close>

text \<open>The loop of \<^verbatim>\<open>getDeepValue\<close> over the parts of the path.\<close>

fun getDeepValue_loop :: "host \<Rightarrow> jsval \<Rightarrow> string list \<Rightarrow> jsval" where
  "getDeepValue_loop h current [] = current"
| "getDeepValue_loop h current (part # parts) =
     (if current = JNull \<or> current = JUndefined then JUndefined
      else getDeepValue_loop h (getProp h current part) parts)"

definition getDeepValue :: "host \<Rightarrow> jsval \<Rightarrow> string \<Rightarrow> jsval" where
  "getDeepValue h obj path =
     (if path = [] then JUndefined
      else getDeepValue_loop h obj (split_on CHR ''.'' path))"

text \<open>
  \<^verbatim>\<open>template.replace(/\$\{([^}]+)\}/g, (_, expr) => f(expr))\<close>: at a \<^verbatim>\<open>${\<close> followed by a
  non-empty run of characters other than \<^verbatim>\<open>}\<close> and then a \<^verbatim>\<open>}\<close>, the match is replaced
  by \<open>f\<close> of the run and the scan goes on behind the \<^verbatim>\<open>}\<close>; any other character is kept.
\<close>

abbreviation not_close :: "char \<Rightarrow> bool" where
  "not_close \<equiv> (\<lambda>x. x \<noteq> CHR ''}'')"

function replace_placeholders :: "(string \<Rightarrow> string) \<Rightarrow> string \<Rightarrow> string" where
  "replace_placeholders f [] = []"
| "replace_placeholders f (c # cs) =
     (if c = CHR ''$'' \<and> cs \<noteq> [] \<and> hd cs = CHR ''{''
         \<and> takeWhile not_close (tl cs) \<noteq> [] \<and> dropWhile not_close (tl cs) \<noteq> []
      then f (takeWhile not_close (tl cs))
           @ replace_placeholders f (tl (dropWhile not_close (tl cs)))
      else c # replace_placeholders f cs)"
  by pat_completeness auto
termination
proof (relation "measure (\<lambda>(f, s). length s)")
  show "wf (measure (\<lambda>(f :: string \<Rightarrow> string, s :: string). length s))" by simp
next
  fix f :: "string \<Rightarrow> string" and c :: char and cs :: string
  assume "c = CHR ''$'' \<and> cs \<noteq> [] \<and> hd cs = CHR ''{''
         \<and> takeWhile not_close (tl cs) \<noteq> [] \<and> dropWhile not_close (tl cs) \<noteq> []"
  then have ne: "cs \<noteq> []" by simp
  have "length (tl (dropWhile not_close (tl cs))) \<le> length (dropWhile not_close (tl cs))"
    by simp
  also have "\<dots> \<le> length (tl cs)" by (rule length_dropWhile_le)
  also have "\<dots> < length (c # cs)" using ne by simp
  finally show "((f, tl (dropWhile not_close (tl cs))), (f, c # cs))
        \<in> measure (\<lambda>(f, s). length s)" by simp
next
  fix f :: "string \<Rightarrow> string" and c :: char and cs :: string
  show "((f, cs), (f, c # cs)) \<in> measure (\<lambda>(f, s). length s)" by simp
qed

declare replace_placeholders.simps(2) [simp del]

text \<open>
  The callback of \<^verbatim>\<open>interpolateTemplate\<close>, given the text between the braces; \<open>results\<close> is
  the object \<^verbatim>\<open>results\<close>.
\<close>

definition render_placeholder :: "host \<Rightarrow> jsval \<Rightarrow> string \<Rightarrow> string" where
  "render_placeholder h results expr =
     (let v = getDeepValue h results (trim expr) in
      if v = JUndefined \<or> v = JNull then ''[missing '' @ trim expr @ '']''
      else (case v of
              JArr xs \<Rightarrow> JSON_stringify h v
            | JObj kvs \<Rightarrow> JSON_stringify h v
            | JDerived kvs p \<Rightarrow> JSON_stringify h v
            | _ \<Rightarrow> ToString h v))"

definition interpolateTemplate :: "host \<Rightarrow> string option \<Rightarrow> jsval \<Rightarrow> string" where
  "interpolateTemplate h template results =
     (case template of
        None \<Rightarrow> []
      | Some t \<Rightarrow> if t = [] then [] else replace_placeholders (render_placeholder h results) t)"

definition interpolateJsonPayload :: "host \<Rightarrow> string \<Rightarrow> jsval \<Rightarrow> string" where
  "interpolateJsonPayload h raw results = interpolateTemplate h (Some raw) results"

subsection \<open>\<^verbatim>\<open>src/lib/cron.ts\<close>\<close>

definition date_le :: "date \<Rightarrow> date \<Rightarrow> bool" where
  "date_le a b = (case (a, b) of (Some x, Some y) \<Rightarrow> x \<le> y | _ \<Rightarrow> False)"

text \<open>
  \<^verbatim>\<open>isDue(schedule, lastRunAt, now)\<close>; the result comes with the lines written by
  \<^verbatim>\<open>console.warn\<close>. An absent or empty \<open>lastRunAt\<close> is falsy.
\<close>

definition isDue :: "host \<Rightarrow> string \<Rightarrow> string option \<Rightarrow> date \<Rightarrow> bool \<times> string list" where
  "isDue h schedule lastRunAt now =
     (let refDate = (case lastRunAt of
                       None \<Rightarrow> map_option (\<lambda>t. t - 60000) now
                     | Some l \<Rightarrow> if l \<noteq> [] then Date_parse h l
                                else map_option (\<lambda>t. t - 60000) now)
      in case cron_next h schedule refDate of
           Inr nextRun \<Rightarrow> (date_le nextRun now, [])
         | Inl err \<Rightarrow>
             (False, [''[cron] Invalid expression '' @ dquote @ schedule @ dquote @ '': '' @ err]))"


subsection \<open>\<^verbatim>\<open>src/schemas/FlowConfig.ts\<close>\<close>

datatype http_method = GET | POST | PUT | DELETE | PATCH

fun method_text :: "http_method \<Rightarrow> string" where
  "method_text GET = ''GET''"
| "method_text POST = ''POST''"
| "method_text PUT = ''PUT''"
| "method_text DELETE = ''DELETE''"
| "method_text PATCH = ''PATCH''"

datatype operator = OpEq | OpNe | OpLt | OpGt | OpLe | OpGe

fun operator_text :: "operator \<Rightarrow> string" where
  "operator_text OpEq = ''=''"
| "operator_text OpNe = ''!=''"
| "operator_text OpLt = ''<''"
| "operator_text OpGt = ''>''"
| "operator_text OpLe = ''<=''"
| "operator_text OpGe = ''>=''"

text \<open>The \<^verbatim>\<open>value\<close> of a rule: \<^verbatim>\<open>z.union([z.string(), z.number()])\<close>.\<close>

datatype rule_literal = LitString string | LitNumber jsnum

fun literal_value :: "rule_literal \<Rightarrow> jsval" where
  "literal_value (LitString s) = JStr s"
| "literal_value (LitNumber n) = JNum n"

record condition_rule =
  input :: string
  operator :: operator
  rule_value :: rule_literal

datatype logic_mode = LogicAND | LogicOR

fun logic_text :: "logic_mode \<Rightarrow> string" where
  "logic_text LogicAND = ''AND''"
| "logic_text LogicOR = ''OR''"

record fetch_step =
  fetch_id :: string
  fetch_url :: string
  fetch_method :: "http_method option"
  fetch_headers :: "(string \<times> string) list option"
  fetch_body :: "string option"
  timeout_ms :: "nat option"

datatype notify_method = Slack | Discord | Teams | Webhook

fun notify_method_text :: "notify_method \<Rightarrow> string" where
  "notify_method_text Slack = ''slack''"
| "notify_method_text Discord = ''discord''"
| "notify_method_text Teams = ''teams''"
| "notify_method_text Webhook = ''webhook''"

record notify_step =
  notify_method :: notify_method
  notify_url :: string
  notify_message :: "string option"
  rawPayload :: "string option"
  notify_include :: "string list option"

datatype step =
    Fetch fetch_step
  | Condition condition_rule
  | Logic logic_mode "condition_rule list"
  | Delay string
  | Log string "string list option"
  | Notify notify_step

text \<open>\<^verbatim>\<open>step.type\<close>.\<close>

fun step_type :: "step \<Rightarrow> string" where
  "step_type (Fetch f) = ''fetch''"
| "step_type (Condition r) = ''condition''"
| "step_type (Logic m rs) = ''logic''"
| "step_type (Delay d) = ''delay''"
| "step_type (Log m inc) = ''log''"
| "step_type (Notify n) = ''notify''"

record FlowConfig =
  name :: string
  schedule :: string
  enabled :: bool
  steps :: "step list"

record FlowRecord = FlowConfig +
  flow_id :: string
  createdAt :: string
  updatedAt :: string
  lastRunAt :: "string option"

text \<open>
  \<^verbatim>\<open>validateNotifySteps\<close>: the paths of the issues it adds, in order; \<open>seen\<close> is the set
  \<^verbatim>\<open>fetchIds\<close> and \<open>i\<close> the index of the step.
\<close>

definition blank :: "string option \<Rightarrow> bool" where
  "blank s = (case s of None \<Rightarrow> True | Some t \<Rightarrow> t = [] \<or> trim t = [])"

fun validateNotifySteps :: "step list \<Rightarrow> string list \<Rightarrow> nat \<Rightarrow> (nat \<times> string) list" where
  "validateNotifySteps [] seen i = []"
| "validateNotifySteps (Fetch f # rest) seen i =
     (if fetch_id f \<in> set seen then (i, ''id'') # validateNotifySteps rest seen (Suc i)
      else validateNotifySteps rest (fetch_id f # seen) (Suc i))"
| "validateNotifySteps (Notify n # rest) seen i =
     (if notify_method n = Webhook
      then (if blank (rawPayload n) then [(i, ''rawPayload'')] else [])
      else (if blank (notify_message n) then [(i, ''message'')] else []))
     @ validateNotifySteps rest seen (Suc i)"
| "validateNotifySteps (_ # rest) seen i = validateNotifySteps rest seen (Suc i)"

text \<open>
  The checks of \<^verbatim>\<open>StepSchema\<close> on a well-typed step: the id of a fetch step has at least one
  character (\<^verbatim>\<open>min(1)\<close>), the url of a notify step is a URL (\<^verbatim>\<open>url()\<close>).
\<close>

fun StepSchema_ok :: "host \<Rightarrow> step \<Rightarrow> bool" where
  "StepSchema_ok h (Fetch f) = (1 \<le> length (fetch_id f))"
| "StepSchema_ok h (Notify n) = URL_ok h (notify_url n)"
| "StepSchema_ok h _ = True"

text \<open>
  \<^verbatim>\<open>FlowConfigSchema.parse\<close> of a well-typed payload returns the payload when no check of a
  step fails and \<^verbatim>\<open>validateNotifySteps\<close> adds no issue, and throws otherwise.
\<close>

definition FlowConfigSchema_ok :: "host \<Rightarrow> FlowConfig \<Rightarrow> bool" where
  "FlowConfigSchema_ok h config =
     (list_all (StepSchema_ok h) (steps config) \<and> validateNotifySteps (steps config) [] 0 = [])"

subsection \<open>\<^verbatim>\<open>src/lib/stepExecutor.ts\<close>\<close>

text \<open>
  The context of a run. \<open>results\<close> holds the own properties of the object \<^verbatim>\<open>context.results\<close>
  and \<open>results_proto\<close> its prototype when that is no longer \<^verbatim>\<open>Object.prototype\<close>. \<open>tick\<close>
  counts the interactions with the outside world (a reading of the clock, a call of the
  network) made so far.
\<close>

record ExecContext =
  results :: "(string \<times> jsval) list"
  results_proto :: "jsval option"
  logs :: "string list"
  tick :: nat

text \<open>The object \<^verbatim>\<open>context.results\<close>.\<close>

definition results_object :: "ExecContext \<Rightarrow> jsval" where
  "results_object context =
     (case results_proto context of
        None \<Rightarrow> JObj (results context)
      | Some p \<Rightarrow> JDerived (results context) p)"

text \<open>\<^verbatim>\<open>context.results[key] = output\<close>, for an output that is an object.\<close>

definition assign_result :: "string \<Rightarrow> jsval \<Rightarrow> ExecContext \<Rightarrow> ExecContext" where
  "assign_result k v context =
     (if sets_prototype k (results context) then context\<lparr>results_proto := Some v\<rparr>
      else context\<lparr>results := AList.update k v (results context)\<rparr>)"

record StepExecutionResult =
  stepId :: string
  step_output :: "jsval option"
  step_error :: "string option"
  timestamp :: string

record ExecutionOutcome =
  success :: bool
  stepResults :: "StepExecutionResult list"

definition bool_text :: "bool \<Rightarrow> string" where
  "bool_text b = (if b then ''true'' else ''false'')"

definition evaluateRule :: "host \<Rightarrow> condition_rule \<Rightarrow> ExecContext \<Rightarrow> bool" where
  "evaluateRule h rule context =
     (let v = getDeepValue h (results_object context) (input rule);
          target = literal_value (rule_value rule);
          numValue = ToNumber h v;
          numTarget = ToNumber h target;
          isNumeric = (\<not> isNaN numValue \<and> \<not> isNaN numTarget)
      in case operator rule of
           OpEq \<Rightarrow> loose_eq h v target
         | OpNe \<Rightarrow> \<not> loose_eq h v target
         | OpLt \<Rightarrow> if isNumeric then num_lt numValue numTarget
                   else str_lt (ToString h v) (ToString h target)
         | OpGt \<Rightarrow> if isNumeric then num_lt numTarget numValue
                   else str_lt (ToString h target) (ToString h v)
         | OpLe \<Rightarrow> if isNumeric then num_le numValue numTarget
                   else str_le (ToString h v) (ToString h target)
         | OpGe \<Rightarrow> if isNumeric then num_le numTarget numValue
                   else str_le (ToString h target) (ToString h v))"

definition push_log :: "string \<Rightarrow> ExecContext \<Rightarrow> ExecContext" where
  "push_log line context = context\<lparr>logs := logs context @ [line]\<rparr>"

definition executeCondition :: "host \<Rightarrow> condition_rule \<Rightarrow> ExecContext \<Rightarrow> bool \<times> ExecContext" where
  "executeCondition h rule context =
     (let result = evaluateRule h rule context
      in (result,
          push_log (''[condition] '' @ input rule @ '' '' @ operator_text (operator rule) @ '' ''
                    @ ToString h (literal_value (rule_value rule)) @ '' -> '' @ bool_text result)
            context))"

definition executeLogic ::
  "host \<Rightarrow> logic_mode \<Rightarrow> condition_rule list \<Rightarrow> ExecContext \<Rightarrow> bool \<times> ExecContext" where
  "executeLogic h logic conditions context =
     (let evaluations = map (\<lambda>condition. evaluateRule h condition context) conditions;
          result = (if logic = LogicAND then list_all (\<lambda>b. b) evaluations
                    else list_ex (\<lambda>b. b) evaluations)
      in (result,
          push_log (''[logic] '' @ show_nat (length conditions) @ '' conditions (''
                    @ logic_text logic @ '') -> '' @ bool_text result)
            context))"

text \<open>\<^verbatim>\<open>parseDuration\<close>: the text must match \<^verbatim>\<open>/^(\d+)(ms|s|m|h)$/\<close>.\<close>

definition parseDuration :: "string \<Rightarrow> string + nat" where
  "parseDuration duration =
     (let digits = takeWhile is_digit duration;
          unit = dropWhile is_digit duration
      in if digits = [] \<or> unit \<notin> set [''ms'', ''s'', ''m'', ''h'']
         then Inl (''Invalid duration format '' @ dquote @ duration @ dquote)
         else if unit = ''ms'' then Inr (digits_value digits)
         else if unit = ''s'' then Inr (digits_value digits * 1000)
         else if unit = ''m'' then Inr (digits_value digits * 60000)
         else Inr (digits_value digits * 3600000))"

text \<open>The delay itself only lets time pass.\<close>

definition executeDelay :: "string \<Rightarrow> string + bool" where
  "executeDelay duration =
     (case parseDuration duration of Inl e \<Rightarrow> Inl e | Inr ms \<Rightarrow> Inr True)"

definition executeLog ::
  "host \<Rightarrow> string \<Rightarrow> string list option \<Rightarrow> ExecContext \<Rightarrow> bool \<times> ExecContext" where
  "executeLog h message incl context =
     (let baseMessage = interpolateTemplate h (Some message) (results_object context);
          included = map_option
            (foldl (\<lambda>acc key. set_own key (getProp h (results_object context) key) acc) [])
            incl;
          message' = (case included of
                        Some inc \<Rightarrow>
                          if inc \<noteq> [] then baseMessage @ '' '' @ JSON_stringify h (JObj inc)
                          else baseMessage
                      | None \<Rightarrow> baseMessage)
      in (True, push_log (''[log] '' @ message') context))"


text \<open>\<^verbatim>\<open>Headers.has\<close> and \<^verbatim>\<open>Headers.set\<close>: header names compare without case.\<close>

definition headers_has :: "(string \<times> string) list \<Rightarrow> string \<Rightarrow> bool" where
  "headers_has hs k = list_ex (\<lambda>(k', v). toLowerCase k' = toLowerCase k) hs"

definition headers_set :: "(string \<times> string) list \<Rightarrow> string \<Rightarrow> string \<Rightarrow> (string \<times> string) list" where
  "headers_set hs k v = filter (\<lambda>(k', v'). toLowerCase k' \<noteq> toLowerCase k) hs @ [(k, v)]"

text \<open>
  Whether the timer of \<^verbatim>\<open>executeFetch\<close> aborts a call that would take \<open>ms\<close> milliseconds:
  a timer exists when \<^verbatim>\<open>step.timeout_ms\<close> is truthy, and fires when the call takes longer.
\<close>

definition aborted :: "fetch_step \<Rightarrow> nat \<Rightarrow> bool" where
  "aborted step ms = (case timeout_ms step of None \<Rightarrow> False | Some n \<Rightarrow> n \<noteq> 0 \<and> n < ms)"

definition timeout_message :: "fetch_step \<Rightarrow> string" where
  "timeout_message step =
     ''Request timed out after ''
     @ (case timeout_ms step of None \<Rightarrow> ''undefined'' | Some n \<Rightarrow> show_nat n) @ ''ms''"

definition fetch_request :: "fetch_step \<Rightarrow> http_request" where
  "fetch_request step =
     (let headers0 = (case fetch_headers step of None \<Rightarrow> [] | Some hs \<Rightarrow> hs);
          headers =
            (case fetch_body step of
               None \<Rightarrow> headers0
             | Some b \<Rightarrow>
                 if b \<noteq> [] \<and> \<not> headers_has headers0 ''Content-Type''
                    \<and> (startsWith (trim b) ''{'' \<or> startsWith (trim b) ''['')
                 then headers_set headers0 ''Content-Type'' ''application/json''
                 else headers0)
      in \<lparr>req_url = fetch_url step,
          req_method = (case fetch_method step of None \<Rightarrow> ''GET'' | Some m \<Rightarrow> method_text m),
          req_headers = headers,
          req_body = fetch_body step\<rparr>)"

text \<open>
  \<^verbatim>\<open>executeFetch\<close>: the output, or the message of the error thrown. An abort by the timer
  is rethrown as the time-out error, any other error as it is.
\<close>

definition executeFetch :: "host \<Rightarrow> fetch_step \<Rightarrow> ExecContext \<Rightarrow> (string + jsval) \<times> ExecContext" where
  "executeFetch h step context =
     (let context1 = context\<lparr>tick := tick context + 1\<rparr>
      in case network h (tick context) (fetch_request step) of
           Rejected ms msg \<Rightarrow>
             if aborted step ms then (Inl (timeout_message step), context1)
             else (Inl msg, context1)
         | Responded ms resp \<Rightarrow>
             if aborted step ms then (Inl (timeout_message step), context1)
             else (case resp_text resp of
                     Inl msg \<Rightarrow> (Inl msg, context1)
                   | Inr text \<Rightarrow>
                       (let parsed = (case JSON_parse h text of Inr v \<Rightarrow> v | Inl e \<Rightarrow> JStr text);
                            headersObj = foldl (\<lambda>acc (key, val). set_own key (JStr val) acc) []
                                           (resp_headers resp);
                            out = JObj [(''status'', JNum (Fin (of_nat (resp_status resp)))),
                                        (''headers'', JObj headersObj),
                                        (''body'', parsed)]
                        in (Inr out,
                            push_log (''[fetch:'' @ fetch_id step @ ''] ''
                                      @ (case fetch_method step of None \<Rightarrow> ''undefined''
                                         | Some m \<Rightarrow> method_text m)
                                      @ '' '' @ fetch_url step @ '' -> ''
                                      @ show_nat (resp_status resp))
                              context1))))"

definition resp_ok :: "http_response \<Rightarrow> bool" where
  "resp_ok resp = (200 \<le> resp_status resp \<and> resp_status resp \<le> 299)"

definition notify_payload :: "host \<Rightarrow> notify_step \<Rightarrow> ExecContext \<Rightarrow> string + jsval" where
  "notify_payload h step context =
     (let interpolatedMessage =
            interpolateTemplate h
              (Some (case notify_message step of None \<Rightarrow> [] | Some m \<Rightarrow> m))
              (results_object context)
      in case notify_method step of
           Slack \<Rightarrow> Inr (JObj [(''text'', JStr interpolatedMessage)])
         | Teams \<Rightarrow> Inr (JObj [(''text'', JStr interpolatedMessage)])
         | Discord \<Rightarrow> Inr (JObj [(''content'', JStr interpolatedMessage)])
         | Webhook \<Rightarrow>
             (case rawPayload step of
                None \<Rightarrow> Inr (JObj [(''message'', JStr interpolatedMessage)])
              | Some raw \<Rightarrow>
                  if raw = [] then Inr (JObj [(''message'', JStr interpolatedMessage)])
                  else (case JSON_parse h (interpolateJsonPayload h raw (results_object context)) of
                          Inr v \<Rightarrow> Inr v
                        | Inl e \<Rightarrow> Inl (''Invalid webhook payload JSON: '' @ e))))"

definition executeNotify :: "host \<Rightarrow> notify_step \<Rightarrow> ExecContext \<Rightarrow> (string + bool) \<times> ExecContext" where
  "executeNotify h step context =
     (case notify_payload h step context of
        Inl e \<Rightarrow> (Inl e, context)
      | Inr payload \<Rightarrow>
          (let context1 = context\<lparr>tick := tick context + 1\<rparr>
           in case network h (tick context)
                     \<lparr>req_url = notify_url step, req_method = ''POST'',
                      req_headers = [(''Content-Type'', ''application/json'')],
                      req_body = Some (JSON_stringify h payload)\<rparr> of
                Rejected ms msg \<Rightarrow> (Inl msg, context1)
              | Responded ms resp \<Rightarrow>
                  (let context2 = push_log (''[notify:'' @ notify_method_text (notify_method step)
                                            @ ''] status='' @ show_nat (resp_status resp)) context1
                   in if \<not> resp_ok resp
                      then (case resp_text resp of
                              Inl e \<Rightarrow> (Inl e, context2)
                            | Inr text \<Rightarrow>
                                (Inl (''Notify request failed ('' @ show_nat (resp_status resp)
                                      @ ''): '' @ take 100 text), context2))
                      else (Inr True, context2))))"

text \<open>\<^verbatim>\<open>timestamp()\<close>: a reading of the clock.\<close>

definition read_clock :: "host \<Rightarrow> ExecContext \<Rightarrow> string \<times> ExecContext" where
  "read_clock h context = (toISOString h (tick context), context\<lparr>tick := tick context + 1\<rparr>)"

text \<open>\<^verbatim>\<open>"id" in step ? step.id : step.type\<close>: only a fetch step has an id.\<close>

fun step_label :: "step \<Rightarrow> string" where
  "step_label (Fetch f) = fetch_id f"
| "step_label s = step_type s"

text \<open>
  What the body of the loop of \<^verbatim>\<open>executeSteps\<close> does with one step: it pushes one result
  and either goes on with the next step or returns with the given \<^verbatim>\<open>success\<close>.
\<close>

datatype control = Next | Return bool

text \<open>The \<^verbatim>\<open>catch\<close> block of the loop.\<close>

definition step_failed ::
  "host \<Rightarrow> step \<Rightarrow> string \<Rightarrow> ExecContext \<Rightarrow> control \<times> StepExecutionResult \<times> ExecContext" where
  "step_failed h step message context =
     (let (ts, context') =
            read_clock h (push_log (''['' @ step_type step @ ''] Error: '' @ message) context)
      in (Return False,
          \<lparr>stepId = step_label step, step_output = None, step_error = Some message,
           timestamp = ts\<rparr>,
          context'))"

text \<open>The end of the \<^verbatim>\<open>try\<close> block: the result of a step that went through.\<close>

definition step_done ::
  "host \<Rightarrow> step \<Rightarrow> jsval \<Rightarrow> ExecContext \<Rightarrow> control \<times> StepExecutionResult \<times> ExecContext" where
  "step_done h step out context =
     (let (ts, context') = read_clock h context
      in (Next,
          \<lparr>stepId = step_label step, step_output = Some out, step_error = None, timestamp = ts\<rparr>,
          context'))"

text \<open>The early return of a condition or logic step that evaluated to false.\<close>

definition short_circuit ::
  "host \<Rightarrow> string \<Rightarrow> string \<Rightarrow> ExecContext \<Rightarrow> control \<times> StepExecutionResult \<times> ExecContext" where
  "short_circuit h line kind context =
     (let (ts, context') = read_clock h (push_log line context)
      in (Return True,
          \<lparr>stepId = kind, step_output = Some (JBool False), step_error = None, timestamp = ts\<rparr>,
          context'))"

fun run_step :: "host \<Rightarrow> step \<Rightarrow> ExecContext \<Rightarrow> control \<times> StepExecutionResult \<times> ExecContext" where
  "run_step h (Fetch f) context =
     (case executeFetch h f context of
        (Inl e, context1) \<Rightarrow> step_failed h (Fetch f) e context1
      | (Inr out, context1) \<Rightarrow>
          step_done h (Fetch f) out (assign_result (fetch_id f) out context1))"
| "run_step h (Condition r) context =
     (case executeCondition h r context of
        (out, context1) \<Rightarrow>
          if \<not> out
          then short_circuit h (''[condition:'' @ input r @ ''] Evaluated false, stopping execution.'')
                 ''condition'' context1
          else step_done h (Condition r) (JBool out) context1)"
| "run_step h (Logic m rs) context =
     (case executeLogic h m rs context of
        (out, context1) \<Rightarrow>
          if \<not> out
          then short_circuit h ''[logic] Evaluated false, stopping execution.'' ''logic'' context1
          else step_done h (Logic m rs) (JBool out) context1)"
| "run_step h (Delay d) context =
     (case executeDelay d of
        Inl e \<Rightarrow> step_failed h (Delay d) e context
      | Inr out \<Rightarrow> step_done h (Delay d) (JBool out) context)"
| "run_step h (Log m inc) context =
     (case executeLog h m inc context of
        (out, context1) \<Rightarrow> step_done h (Log m inc) (JBool out) context1)"
| "run_step h (Notify n) context =
     (case executeNotify h n context of
        (Inl e, context1) \<Rightarrow> step_failed h (Notify n) e context1
      | (Inr out, context1) \<Rightarrow> step_done h (Notify n) (JBool out) context1)"

text \<open>The loop of \<^verbatim>\<open>executeSteps\<close>; \<open>acc\<close> is the array \<^verbatim>\<open>results\<close> of step results.\<close>

fun executeSteps_loop ::
  "host \<Rightarrow> step list \<Rightarrow> StepExecutionResult list \<Rightarrow> ExecContext \<Rightarrow> ExecutionOutcome \<times> ExecContext" where
  "executeSteps_loop h [] acc context = (\<lparr>success = True, stepResults = acc\<rparr>, context)"
| "executeSteps_loop h (step # rest) acc context =
     (case run_step h step context of
        (Next, r, context') \<Rightarrow> executeSteps_loop h rest (acc @ [r]) context'
      | (Return b, r, context') \<Rightarrow> (\<lparr>success = b, stepResults = acc @ [r]\<rparr>, context'))"

definition executeSteps :: "host \<Rightarrow> step list \<Rightarrow> ExecContext \<Rightarrow> ExecutionOutcome \<times> ExecContext" where
  "executeSteps h ss context = executeSteps_loop h ss [] context"


subsection \<open>\<^verbatim>\<open>src/schemas/RunRecord.ts\<close> and \<^verbatim>\<open>src/lib/utils.ts\<close>\<close>

datatype run_status = RunSuccess | RunFailure

datatype trigger = Manual | Cron

fun trigger_text :: "trigger \<Rightarrow> string" where
  "trigger_text Manual = ''manual''"
| "trigger_text Cron = ''cron''"

record RunRecord =
  run_id :: string
  flowId :: string
  run_name :: string
  status :: run_status
  run_trigger :: "trigger option"
  startedAt :: string
  finishedAt :: string
  run_logs :: "string list"
  run_steps :: "StepExecutionResult list"
  run_flow :: FlowRecord

definition is_id_char :: "char \<Rightarrow> bool" where
  "is_id_char c =
     ((97 \<le> (of_char c :: nat) \<and> (of_char c :: nat) \<le> 122)
      \<or> (48 \<le> (of_char c :: nat) \<and> (of_char c :: nat) \<le> 57))"

abbreviation is_dash :: "char \<Rightarrow> bool" where
  "is_dash \<equiv> (\<lambda>x. x = CHR ''-'')"

text \<open>\<^verbatim>\<open>.replace(/[^a-z0-9]+/g, "-")\<close>.\<close>

function replace_non_alnum :: "string \<Rightarrow> string" where
  "replace_non_alnum [] = []"
| "replace_non_alnum (c # cs) =
     (if is_id_char c then c # replace_non_alnum cs
      else CHR ''-'' # replace_non_alnum (dropWhile (\<lambda>x. \<not> is_id_char x) cs))"
  by pat_completeness auto
termination
  by (relation "measure length") (auto simp: less_Suc_eq_le length_dropWhile_le)

text \<open>\<^verbatim>\<open>.replace(/^-+|-+$/g, "")\<close>.\<close>

definition strip_dashes :: "string \<Rightarrow> string" where
  "strip_dashes s = rev (dropWhile is_dash (rev (dropWhile is_dash s)))"

text \<open>\<^verbatim>\<open>.replace(/-{2,}/g, "-")\<close>.\<close>

function squeeze_dashes :: "string \<Rightarrow> string" where
  "squeeze_dashes [] = []"
| "squeeze_dashes (c # cs) =
     (if c = CHR ''-'' \<and> cs \<noteq> [] \<and> hd cs = CHR ''-''
      then CHR ''-'' # squeeze_dashes (dropWhile is_dash cs)
      else c # squeeze_dashes cs)"
  by pat_completeness auto
termination
  by (relation "measure length") (auto simp: less_Suc_eq_le length_dropWhile_le)

definition generateFlowId :: "string \<Rightarrow> string" where
  "generateFlowId nm = squeeze_dashes (strip_dashes (replace_non_alnum (toLowerCase nm)))"

text \<open>
  \<^verbatim>\<open>runFlowNow\<close>, over the interpreter it calls: \<open>exec\<close> returns an outcome or throws, and
  leaves the context as it has mutated it. \<open>t\<close> is the count of interactions with the
  outside world before the run; the run record comes with the count after it.
\<close>

definition runFlowNow_with ::
  "host \<Rightarrow> (step list \<Rightarrow> ExecContext \<Rightarrow> (string + ExecutionOutcome) \<times> ExecContext)
   \<Rightarrow> FlowRecord \<Rightarrow> trigger option \<Rightarrow> nat \<Rightarrow> RunRecord \<times> nat" where
  "runFlowNow_with h exec flow options t =
     (let started = toISOString h t;
          trig = (case options of None \<Rightarrow> Manual | Some tr \<Rightarrow> tr);
          execContext = \<lparr>results = [], results_proto = None,
                         logs = [''[system] Triggered by '' @ trigger_text trig @ '' at '' @ started],
                         tick = t + 1\<rparr>;
          (outcome, context') =
            (case exec (steps flow) execContext of
               (Inr oc, context1) \<Rightarrow> (oc, context1)
             | (Inl message, context1) \<Rightarrow>
                 (\<lparr>success = False,
                   stepResults = [\<lparr>stepId = ''execution'', step_output = None,
                                   step_error = Some message,
                                   timestamp = toISOString h (tick context1)\<rparr>]\<rparr>,
                  push_log message (context1\<lparr>tick := tick context1 + 1\<rparr>)))
      in (\<lparr>run_id = randomUUID h (tick context'),
           flowId = flow_id flow,
           run_name = name flow,
           status = (if success outcome then RunSuccess else RunFailure),
           run_trigger = Some trig,
           startedAt = started,
           finishedAt = toISOString h (tick context' + 1),
           run_logs = logs context',
           run_steps = stepResults outcome,
           run_flow = flow\<rparr>,
          tick context' + 2))"

text \<open>The interpreter of this repository returns an outcome for every step list.\<close>

definition runFlowNow :: "host \<Rightarrow> FlowRecord \<Rightarrow> trigger option \<Rightarrow> nat \<Rightarrow> RunRecord \<times> nat" where
  "runFlowNow h flow options t =
     runFlowNow_with h (\<lambda>ss context. case executeSteps h ss context of (oc, c) \<Rightarrow> (Inr oc, c))
       flow options t"

subsection \<open>\<^verbatim>\<open>src/durable/NexFlowManager.ts\<close>\<close>

text \<open>
  The state of the store: two plain objects used as dictionaries, given by their own
  properties. A value under \<^verbatim>\<open>flows\<close> is a flow record, or else some other object, given by
  its properties.
\<close>

datatype stored_flow = Flow FlowRecord | Plain "(string \<times> jsval) list"

record NexFlowState =
  flows :: "string \<rightharpoonup> stored_flow"
  history :: "string \<rightharpoonup> RunRecord list"

text \<open>\<^verbatim>\<open>loadState\<close> of a store that holds nothing yet.\<close>

definition empty_state :: NexFlowState where
  "empty_state = \<lparr>flows = Map.empty, history = Map.empty\<rparr>"

definition normalizeRun :: "RunRecord \<Rightarrow> RunRecord" where
  "normalizeRun run =
     run\<lparr>run_trigger := Some (case run_trigger run of None \<Rightarrow> Manual | Some tr \<Rightarrow> tr)\<rparr>"

text \<open>\<^verbatim>\<open>withDefaults\<close>: \<^verbatim>\<open>enabled\<close> is always defined in this model.\<close>

definition withDefaults :: "FlowRecord \<Rightarrow> FlowRecord" where
  "withDefaults flow = flow\<lparr>enabled := enabled flow\<rparr>"

text \<open>
  \<^verbatim>\<open>state.flows[flowId]\<close> and \<^verbatim>\<open>state.history[flowId]\<close> as a condition: an own property is
  an object or an array, which counts as true; without an own property the lookup gives
  the inherited member.
\<close>

definition flows_member_truthy :: "host \<Rightarrow> NexFlowState \<Rightarrow> string \<Rightarrow> bool" where
  "flows_member_truthy h state k =
     (case flows state k of Some f \<Rightarrow> True | None \<Rightarrow> truthy (inherited_member h k))"

definition history_member_truthy :: "host \<Rightarrow> NexFlowState \<Rightarrow> string \<Rightarrow> bool" where
  "history_member_truthy h state k =
     (case history state k of Some rs \<Rightarrow> True | None \<Rightarrow> truthy (inherited_member h k))"

text \<open>\<^verbatim>\<open>{...flow, lastRunAt: normalized.finishedAt}\<close> for what \<^verbatim>\<open>state.flows[flowId]\<close> gave.\<close>

definition with_lastRunAt :: "host \<Rightarrow> NexFlowState \<Rightarrow> string \<Rightarrow> string \<Rightarrow> stored_flow" where
  "with_lastRunAt h state k finished =
     (case flows state k of
        Some (Flow flow) \<Rightarrow> Flow (flow\<lparr>lastRunAt := Some finished\<rparr>)
      | Some (Plain kvs) \<Rightarrow> Plain (AList.update ''lastRunAt'' (JStr finished) kvs)
      | None \<Rightarrow>
          Plain (AList.update ''lastRunAt'' (JStr finished)
                   (own_enumerable (inherited_member h k))))"

text \<open>
  The end of \<^verbatim>\<open>persistRun\<close>: the update of \<^verbatim>\<open>lastRunAt\<close> when \<^verbatim>\<open>state.flows[flowId]\<close> counts
  as true, and the state that is saved.
\<close>

definition update_lastRunAt :: "host \<Rightarrow> NexFlowState \<Rightarrow> RunRecord \<Rightarrow> RunRecord \<Rightarrow> NexFlowState" where
  "update_lastRunAt h state record normalized =
     (if flows_member_truthy h state (flowId normalized)
      then state\<lparr>flows := member_set (flowId record)
                              (with_lastRunAt h state (flowId normalized) (finishedAt normalized))
                              (flows state)\<rparr>
      else state)"

text \<open>
  \<^verbatim>\<open>persistRun\<close>: the state it saves, or the error it throws before it saves anything.
  \<open>state1\<close> is the state after \<^verbatim>\<open>if (!state.history[flowId]) state.history[flowId] = []\<close>.
  When \<^verbatim>\<open>state.history[flowId]\<close> is an own property then, it is an array, which gets the
  run in front and is cut to 50. When it is not, the lookup gives an inherited member. If
  that member counts as true (such as the function \<^verbatim>\<open>Object\<close> for the flow id
  \<^verbatim>\<open>constructor\<close>), no array was stored and the call of \<^verbatim>\<open>unshift\<close> on it throws a
  \<^verbatim>\<open>TypeError\<close>: the members that \<^verbatim>\<open>Object.prototype\<close> gives are no arrays. Otherwise the
  assignment has made the array the prototype of \<^verbatim>\<open>state.history\<close>, which is not among the
  properties that are saved.
\<close>

definition persistRun :: "host \<Rightarrow> NexFlowState \<Rightarrow> RunRecord \<Rightarrow> string + NexFlowState" where
  "persistRun h state record =
     (let normalized = normalizeRun record;
          fid = flowId normalized;
          state1 = (if \<not> history_member_truthy h state fid
                    then state\<lparr>history := member_set fid [] (history state)\<rparr>
                    else state)
      in case history state1 fid of
           Some rs \<Rightarrow>
             Inr (update_lastRunAt h
                    (state1\<lparr>history := (history state1)(fid \<mapsto> take 50 (normalized # rs))\<rparr>)
                    record normalized)
         | None \<Rightarrow>
             if truthy (inherited_member h fid) then Inl ''TypeError''
             else Inr (update_lastRunAt h state1 record normalized))"

text \<open>The answers of the handler: a JSON body or a text, with the status.\<close>

datatype response = Json nat FlowRecord | Text nat string

text \<open>
  \<^verbatim>\<open>POST /flows\<close> on the state \<open>storage\<close> that \<^verbatim>\<open>loadState\<close> and \<^verbatim>\<open>migrateLegacyState\<close> have
  given: the response (or the error thrown by the schema) and the state in storage
  afterwards. \<open>now\<close> is \<^verbatim>\<open>new Date().toISOString()\<close>.
\<close>

definition create_flow ::
  "host \<Rightarrow> NexFlowState \<Rightarrow> FlowConfig \<Rightarrow> string \<Rightarrow> (string + response) \<times> NexFlowState" where
  "create_flow h storage payload now =
     (if \<not> FlowConfigSchema_ok h payload then (Inl ''ZodError'', storage)
      else (let fid = generateFlowId (name payload) in
            if flows_member_truthy h storage fid
            then (Inr (Text 409 ''Flow already exists''), storage)
            else (let record = \<lparr>name = name payload, schedule = schedule payload,
                                enabled = enabled payload, steps = steps payload,
                                flow_id = fid, createdAt = now, updatedAt = now,
                                lastRunAt = None\<rparr>;
                      storage' = storage\<lparr>flows := member_set fid (Flow (withDefaults record))
                                                      (flows storage)\<rparr>
                  in (Inr (Json 201 (withDefaults record)), storage'))))"

text \<open>
  \<^verbatim>\<open>POST /runs\<close> on the state \<open>storage\<close>, with a body that the run schema accepts: the
  record answered (or the error thrown by \<^verbatim>\<open>persistRun\<close>) and the state in storage
  afterwards.
\<close>

definition post_runs ::
  "host \<Rightarrow> NexFlowState \<Rightarrow> RunRecord \<Rightarrow> (string + RunRecord) \<times> NexFlowState" where
  "post_runs h storage parsed =
     (case persistRun h storage parsed of
        Inl e \<Rightarrow> (Inl e, storage)
      | Inr saved \<Rightarrow> (Inr parsed, saved))"


subsection \<open>Notions of the specification\<close>





text \<open>
  The id as the specification words it: the name in lower case, cut into its maximal runs
  of characters \<^verbatim>\<open>a-z0-9\<close>, the runs joined by single dashes.
\<close>

function id_words :: "string \<Rightarrow> string list" where
  "id_words [] = []"
| "id_words (c # cs) =
     (if is_id_char c then (c # takeWhile is_id_char cs) # id_words (dropWhile is_id_char cs)
      else id_words (dropWhile (\<lambda>x. \<not> is_id_char x) cs))"
  by pat_completeness auto
termination
  by (relation "measure length") (auto simp: less_Suc_eq_le length_dropWhile_le)

definition spec_flow_id :: "string \<Rightarrow> string" where
  "spec_flow_id nm = join ''-'' (id_words (toLowerCase nm))"

text \<open>
  What \<open>replace_non_alnum\<close> puts before and behind the joined runs: a dash for a text that
  begins, or ends, with other characters.
\<close>

abbreviation non_id :: "char \<Rightarrow> bool" where
  "non_id \<equiv> (\<lambda>x. \<not> is_id_char x)"

definition lead :: "string \<Rightarrow> string" where
  "lead s = (if s \<noteq> [] \<and> \<not> is_id_char (hd s) then ''-'' else [])"

definition trail :: "string \<Rightarrow> string" where
  "trail s = (if id_words s \<noteq> [] \<and> \<not> is_id_char (last s) then ''-'' else [])"

definition words_ok :: "string list \<Rightarrow> bool" where
  "words_ok ws = (\<forall>w\<in>set ws. w \<noteq> [] \<and> (\<forall>x\<in>set w. is_id_char x))"





text \<open>
  The steps of a list all go through (none fails, none stops the run): the results they
  push behind \<open>acc\<close> and the context they leave. \<open>None\<close> when the run ends within the list.
\<close>

fun steps_pass ::
  "host \<Rightarrow> step list \<Rightarrow> StepExecutionResult list \<Rightarrow> ExecContext
   \<Rightarrow> (StepExecutionResult list \<times> ExecContext) option" where
  "steps_pass h [] acc context = Some (acc, context)"
| "steps_pass h (step # rest) acc context =
     (case run_step h step context of
        (Next, r, context') \<Rightarrow> steps_pass h rest (acc @ [r]) context'
      | (Return b, r, context') \<Rightarrow> None)"

text \<open>A condition or logic step that evaluates to false in a context.\<close>

fun evaluates_false :: "host \<Rightarrow> step \<Rightarrow> ExecContext \<Rightarrow> bool" where
  "evaluates_false h (Condition r) context = (\<not> fst (executeCondition h r context))"
| "evaluates_false h (Logic m rs) context = (\<not> fst (executeLogic h m rs context))"
| "evaluates_false h _ context = False"

text \<open>
  The two lines that a condition or logic step writes to the log when it evaluates to
  false: the line of its evaluation and the line of the early return.
\<close>

fun false_step_lines :: "host \<Rightarrow> step \<Rightarrow> string list" where
  "false_step_lines h (Condition r) =
     [''[condition] '' @ input r @ '' '' @ operator_text (operator r) @ '' ''
        @ ToString h (literal_value (rule_value r)) @ '' -> false'',
      ''[condition:'' @ input r @ ''] Evaluated false, stopping execution.'']"
| "false_step_lines h (Logic m rs) =
     [''[logic] '' @ show_nat (length rs) @ '' conditions ('' @ logic_text m @ '') -> false'',
      ''[logic] Evaluated false, stopping execution.'']"
| "false_step_lines h _ = []"

text \<open>How long a call of the network takes.\<close>

fun call_duration :: "net_result \<Rightarrow> nat" where
  "call_duration (Responded ms resp) = ms"
| "call_duration (Rejected ms msg) = ms"

text \<open>The ids of the fetch steps of a list.\<close>

fun fetch_ids :: "step list \<Rightarrow> string list" where
  "fetch_ids [] = []"
| "fetch_ids (Fetch f # rest) = fetch_id f # fetch_ids rest"
| "fetch_ids (_ # rest) = fetch_ids rest"

text \<open>
  The call of a fetch step, made in a context, exceeds the time-out configured for the
  step.
\<close>

definition call_exceeds_timeout :: "host \<Rightarrow> fetch_step \<Rightarrow> ExecContext \<Rightarrow> bool" where
  "call_exceeds_timeout h f context =
     (case timeout_ms f of
        None \<Rightarrow> False
      | Some n \<Rightarrow> n < call_duration (network h (tick context) (fetch_request f)))"

text \<open>
  The append-run operation of the store: the state in storage after \<^verbatim>\<open>POST /runs\<close>. A call
  of \<^verbatim>\<open>persistRun\<close> that throws has saved nothing. In a sequence of appends each works on
  the state that the one before has saved.
\<close>

definition append_run :: "host \<Rightarrow> NexFlowState \<Rightarrow> RunRecord \<Rightarrow> NexFlowState" where
  "append_run h st r = snd (post_runs h st r)"

text \<open>
  A text that names a member which every plain object inherits and which counts as true
  in a condition, such as \<^verbatim>\<open>constructor\<close>, \<^verbatim>\<open>toString\<close> or \<^verbatim>\<open>__proto__\<close>.
\<close>

definition inherited_name :: "host \<Rightarrow> string \<Rightarrow> bool" where
  "inherited_name h k = (k = ''__proto__'' \<or> truthy (inherited_member h k))"

subsection \<open>Sample data\<close>

definition demo_flow :: FlowRecord where
  "demo_flow = \<lparr>name = ''Price Watch'', schedule = ''*/5 * * * *'', enabled = True, steps = [],
                 flow_id = ''price-watch'', createdAt = ''2025-01-01T00:00:00.000Z'',
                 updatedAt = ''2025-01-01T00:00:00.000Z'', lastRunAt = None\<rparr>"

definition demo_run :: "string \<Rightarrow> RunRecord" where
  "demo_run i = \<lparr>run_id = i, flowId = ''price-watch'', run_name = ''Price Watch'',
                  status = RunSuccess, run_trigger = None,
                  startedAt = ''2025-01-01T12:00:00.000Z'',
                  finishedAt = ''2025-01-01T12:00:01.000Z'',
                  run_logs = [], run_steps = [], run_flow = demo_flow\<rparr>"

text \<open>A store whose flow has a full history.\<close>

definition full_state :: NexFlowState where
  "full_state = \<lparr>flows = [''price-watch'' \<mapsto> Flow demo_flow],
                  history = [''price-watch'' \<mapsto> replicate 50 (demo_run ''old'')]\<rparr>"

text \<open>A run whose flow id is the name of a member that every object inherits.\<close>

definition stray_run :: RunRecord where
  "stray_run = (demo_run ''r1'')\<lparr>flowId := ''constructor''\<rparr>"


text \<open>
  A runtime for the examples. Its numerals are the decimal integers: \<open>demo_number\<close> is
  \<^verbatim>\<open>Number\<close> on a text made of an optional sign and digits (\<^verbatim>\<open>NaN\<close> on the other texts of the
  examples, none of which is a numeral), \<open>demo_number_text\<close> is \<^verbatim>\<open>String\<close> on a whole
  number. Its cron library knows the schedules \<^verbatim>\<open>*/5 * * * *\<close> and \<^verbatim>\<open>0 12 * * *\<close>. Its
  network answers \<^verbatim>\<open>42\<close>, after 5 seconds from the slow server and after 20 ms elsewhere,
  but for a server that is down, where the call is rejected, and a broken one, whose
  body cannot be read.
\<close>

definition demo_number :: "string \<Rightarrow> jsnum" where
  "demo_number s =
     (let t = trim s in
      if t = [] then Fin 0
      else if hd t = CHR ''-'' \<and> tl t \<noteq> [] \<and> list_all is_digit (tl t)
      then Fin (- of_nat (digits_value (tl t)))
      else if hd t = CHR ''+'' \<and> tl t \<noteq> [] \<and> list_all is_digit (tl t)
      then Fin (of_nat (digits_value (tl t)))
      else if list_all is_digit t then Fin (of_nat (digits_value t))
      else NaN)"

definition demo_number_text :: "jsnum \<Rightarrow> string" where
  "demo_number_text n =
     (case n of
        NaN \<Rightarrow> ''NaN''
      | NegInf \<Rightarrow> ''-Infinity''
      | PosInf \<Rightarrow> ''Infinity''
      | Fin r \<Rightarrow> (if r < 0 then ''-'' else []) @ show_nat (nat \<lfloor>\<bar>r\<bar>\<rfloor>))"

definition demo_json_parse :: "string \<Rightarrow> string + jsval" where
  "demo_json_parse s =
     (if s \<noteq> [] \<and> list_all is_digit s \<and> (hd s \<noteq> CHR ''0'' \<or> length s = 1)
      then Inr (JNum (Fin (of_nat (digits_value s))))
      else Inl ''Unexpected token'')"

definition demo_cron_next :: "string \<Rightarrow> date \<Rightarrow> string + date" where
  "demo_cron_next s d =
     (case d of
        None \<Rightarrow> Inl ''Error: Invalid date''
      | Some r \<Rightarrow>
          if s = ''*/5 * * * *'' then Inr (Some ((r div 300000 + 1) * 300000))
          else if s = ''0 12 * * *''
          then Inr (Some (((r - 43200000) div 86400000 + 1) * 86400000 + 43200000))
          else Inl ''Error: Invalid cron expression'')"

definition demo_date_parse :: "string \<Rightarrow> date" where
  "demo_date_parse s =
     (if s = ''2025-01-01T11:55:00Z'' then Some 1735732500000
      else if s = ''2025-01-01T12:00:00Z'' then Some 1735732800000
      else None)"

definition demo_network :: "nat \<Rightarrow> http_request \<Rightarrow> net_result" where
  "demo_network t req =
     (if req_url req = ''https://slow.example/price''
      then Responded 5000 \<lparr>resp_status = 200, resp_headers = [], resp_text = Inr ''42''\<rparr>
      else if req_url req = ''https://down.example/price''
      then Rejected 3000 ''fetch failed''
      else if req_url req = ''https://broken.example/price''
      then Responded 3000 \<lparr>resp_status = 200, resp_headers = [],
                            resp_text = Inl ''terminated''\<rparr>
      else Responded 20 \<lparr>resp_status = 200, resp_headers = [], resp_text = Inr ''42''\<rparr>)"

text \<open>
  The members that the values of the examples inherit: \<^verbatim>\<open>constructor\<close> is the built-in
  constructor of the value, \<^verbatim>\<open>toString\<close>, \<^verbatim>\<open>valueOf\<close> and \<^verbatim>\<open>hasOwnProperty\<close> are functions,
  \<^verbatim>\<open>__proto__\<close> is the prototype (an object without enumerable properties).
\<close>

definition demo_inherited :: "jsval \<Rightarrow> string \<Rightarrow> jsval" where
  "demo_inherited v k =
     (if k = ''constructor''
      then JFunction (case v of
                        JArr xs \<Rightarrow> ''Array''
                      | JStr s \<Rightarrow> ''String''
                      | JNum n \<Rightarrow> ''Number''
                      | JBool b \<Rightarrow> ''Boolean''
                      | JFunction n \<Rightarrow> ''Function''
                      | _ \<Rightarrow> ''Object'')
      else if k \<in> set [''toString'', ''valueOf'', ''hasOwnProperty''] then JFunction k
      else if k = ''__proto__'' then JObj []
      else JUndefined)"

definition demo_host :: host where
  "demo_host =
     \<lparr>StringToNumber = demo_number,
      NumberToString = demo_number_text,
      JSON_parse = demo_json_parse,
      JSON_stringify = (\<lambda>v. ''{}''),
      toISOString = (\<lambda>t. ''t'' @ show_nat t),
      network = demo_network,
      randomUUID = (\<lambda>t. ''run-'' @ show_nat t),
      Date_parse = demo_date_parse,
      cron_next = demo_cron_next,
      inherited = demo_inherited,
      URL_ok = (\<lambda>u. startsWith u ''https://'')\<rparr>"

text \<open>A payload for \<^verbatim>\<open>POST /flows\<close>.\<close>

definition demo_config :: "string \<Rightarrow> FlowConfig" where
  "demo_config nm = \<lparr>name = nm, schedule = ''*/5 * * * *'', enabled = True, steps = []\<rparr>"



text \<open>
  Flows for the examples: a fetch of a price (the network answers \<^verbatim>\<open>42\<close> after 20 ms), a
  condition on it that is false, and a log step behind it; and a fetch from a server that
  answers after 5 seconds, with a time-out of one second.
\<close>

definition demo_fetch :: "string \<Rightarrow> string \<Rightarrow> nat option \<Rightarrow> fetch_step" where
  "demo_fetch i u t =
     \<lparr>fetch_id = i, fetch_url = u, fetch_method = Some GET, fetch_headers = None,
      fetch_body = None, timeout_ms = t\<rparr>"

text \<open>
  A payload that the schema turns down: its fetch step has the empty id. The name is that
  of a stored flow.
\<close>

definition bad_config :: FlowConfig where
  "bad_config = (demo_config ''Price Watch'')
     \<lparr>steps := [Fetch (demo_fetch [] ''https://api.example/price'' None)]\<rparr>"

definition price_step :: step where
  "price_step = Fetch (demo_fetch ''price'' ''https://api.example/price'' None)"

definition high_price_step :: step where
  "high_price_step = Condition \<lparr>input = ''price.body'', operator = OpGt,
                                 rule_value = LitNumber (Fin 100)\<rparr>"

definition slow_step :: step where
  "slow_step = Fetch (demo_fetch ''slow'' ''https://slow.example/price'' (Some 1000))"

definition start_context :: ExecContext where
  "start_context = \<lparr>results = [], results_proto = None, logs = [], tick = 0\<rparr>"

text \<open>A fetch from the slow server with a time-out of 0 ms.\<close>

definition zero_timeout_step :: step where
  "zero_timeout_step = Fetch (demo_fetch ''slow'' ''https://slow.example/price'' (Some 0))"

section \<open>Properties\<close>

subsection \<open>The run store\<close>

lemma flowId_normalizeRun [simp]: "flowId (normalizeRun r) = flowId r"
  by (simp add: normalizeRun_def)

lemma finishedAt_normalizeRun [simp]: "finishedAt (normalizeRun r) = finishedAt r"
  by (simp add: normalizeRun_def)

text \<open>\<^verbatim>\<open>persistRun\<close> in one step: it throws, or it saves the state with the run prepended.\<close>

lemma persistRun_eq:
  "persistRun h st r =
     (if history st (flowId r) = None \<and> truthy (inherited_member h (flowId r))
      then Inl ''TypeError''
      else Inr (update_lastRunAt h
                  (st\<lparr>history := member_set (flowId r)
                        (take 50 (normalizeRun r
                           # (case history st (flowId r) of None \<Rightarrow> [] | Some rs \<Rightarrow> rs)))
                        (history st)\<rparr>)
                  r (normalizeRun r)))"
proof (cases "history st (flowId r)")
  case (Some rs)
  then show ?thesis
    by (simp add: persistRun_def history_member_truthy_def member_set_def Let_def)
next
  case None
  show ?thesis
  proof (cases "truthy (inherited_member h (flowId r))")
    case True
    with None show ?thesis
      by (simp add: persistRun_def history_member_truthy_def Let_def)
  next
    case False
    show ?thesis
    proof (cases "flowId r = ''__proto__''")
      case True
      with None False show ?thesis
        by (simp add: persistRun_def history_member_truthy_def member_set_def Let_def)
    next
      case notproto: False
      with None False show ?thesis
        by (simp add: persistRun_def history_member_truthy_def member_set_def Let_def)
    qed
  qed
qed

lemma post_runs_throws:
  "history st (flowId r) = None \<Longrightarrow> truthy (inherited_member h (flowId r))
   \<Longrightarrow> post_runs h st r = (Inl ''TypeError'', st)"
  by (simp add: post_runs_def persistRun_eq)

lemma append_run_throws:
  "history st (flowId r) = None \<Longrightarrow> truthy (inherited_member h (flowId r))
   \<Longrightarrow> append_run h st r = st"
  by (simp add: append_run_def post_runs_throws)

lemma append_run_history:
  "history st (flowId r) \<noteq> None \<or> \<not> truthy (inherited_member h (flowId r)) \<Longrightarrow>
   history (append_run h st r) =
     member_set (flowId r)
       (take 50 (normalizeRun r # (case history st (flowId r) of None \<Rightarrow> [] | Some rs \<Rightarrow> rs)))
       (history st)"
  by (auto simp: append_run_def post_runs_def persistRun_eq update_lastRunAt_def)

lemma append_run_flows:
  "history st (flowId r) \<noteq> None \<or> \<not> truthy (inherited_member h (flowId r)) \<Longrightarrow>
   flows (append_run h st r) =
     (if flows_member_truthy h st (flowId r)
      then member_set (flowId r) (with_lastRunAt h st (flowId r) (finishedAt r)) (flows st)
      else flows st)"
  by (auto simp: append_run_def post_runs_def persistRun_eq update_lastRunAt_def
        flows_member_truthy_def with_lastRunAt_def)

lemma append_run_other:
  "k \<noteq> flowId r \<Longrightarrow>
   flows (append_run h st r) k = flows st k \<and> history (append_run h st r) k = history st k"
proof (cases "history st (flowId r) = None \<and> truthy (inherited_member h (flowId r))")
  case True
  then show ?thesis by (simp add: append_run_throws)
next
  case False
  then have ok: "history st (flowId r) \<noteq> None \<or> \<not> truthy (inherited_member h (flowId r))"
    by auto
  assume "k \<noteq> flowId r"
  then show ?thesis
    by (auto simp: append_run_history [OF ok] append_run_flows [OF ok] member_set_def)
qed

lemma append_run_cap:
  "(case history st fid of None \<Rightarrow> True | Some old \<Rightarrow> length old \<le> 50) \<Longrightarrow>
   (case history (append_run h st r) fid of None \<Rightarrow> True | Some hs \<Rightarrow> length hs \<le> 50)"
proof (cases "history st (flowId r) = None \<and> truthy (inherited_member h (flowId r))")
  case True
  assume "case history st fid of None \<Rightarrow> True | Some old \<Rightarrow> length old \<le> 50"
  with True show ?thesis by (simp add: append_run_throws)
next
  case False
  then have ok: "history st (flowId r) \<noteq> None \<or> \<not> truthy (inherited_member h (flowId r))"
    by auto
  assume "case history st fid of None \<Rightarrow> True | Some old \<Rightarrow> length old \<le> 50"
  then show ?thesis
    by (auto simp: append_run_history [OF ok] member_set_def split: option.splits)
qed

lemma foldl_append_run_cap:
  "(case history st fid of None \<Rightarrow> True | Some old \<Rightarrow> length old \<le> 50) \<Longrightarrow>
   (case history (foldl (append_run h) st rs) fid of None \<Rightarrow> True | Some hs \<Rightarrow> length hs \<le> 50)"
proof (induction rs arbitrary: st)
  case Nil
  then show ?case by simp
next
  case (Cons r rs)
  show ?case
    using Cons.IH [OF append_run_cap [OF Cons.prems]] by simp
qed

lemma take_append_take: "take (Suc n) (a @ x # take n b) = take (Suc n) (a @ x # b)"
  by (simp add: take_Cons' min_def)

lemma take_append_take50: "take 50 (a @ x # take 49 b) = take 50 (a @ x # b)"
  using take_append_take [of 49 a x b] by simp

lemma append_run_history_at:
  "\<not> inherited_name h fid \<Longrightarrow>
   history (append_run h st r) fid =
     (if flowId r = fid
      then Some (take 50 (normalizeRun r # (case history st fid of None \<Rightarrow> [] | Some rs \<Rightarrow> rs)))
      else history st fid)"
proof (cases "flowId r = fid")
  case True
  assume "\<not> inherited_name h fid"
  with True have ok: "history st (flowId r) \<noteq> None \<or> \<not> truthy (inherited_member h (flowId r))"
    and "flowId r \<noteq> ''__proto__''"
    by (simp_all add: inherited_name_def)
  with True show ?thesis
    by (simp add: append_run_history [OF ok] member_set_def)
next
  case False
  then show ?thesis using append_run_other [of fid r h st] by simp
qed

lemma foldl_append_run_history:
  "\<not> inherited_name h fid \<Longrightarrow>
   history (foldl (append_run h) st rs) fid =
     (let xs = filter (\<lambda>r. flowId r = fid) rs in
      if xs = [] then history st fid
      else Some (take 50 (map normalizeRun (rev xs)
                  @ (case history st fid of None \<Rightarrow> [] | Some old \<Rightarrow> old))))"
proof (induction rs arbitrary: st)
  case Nil
  then show ?case by simp
next
  case (Cons r rs)
  show ?case
  proof (cases "flowId r = fid")
    case True
    then show ?thesis
      by (simp add: Cons.IH [OF Cons.prems] append_run_history_at [OF Cons.prems] Let_def
            take_append_take50 del: take_append)
  next
    case False
    then show ?thesis
      by (simp add: Cons.IH [OF Cons.prems] append_run_history_at [OF Cons.prems] Let_def)
  qed
qed


lemma append_run_history_inherited:
  assumes "history st fid = None" and "inherited_name h fid"
  shows "history (append_run h st r) fid = None"
proof (cases "flowId r = fid")
  case False
  then show ?thesis using append_run_other [of fid r h st] assms(1) by simp
next
  case same: True
  show ?thesis
  proof (cases "truthy (inherited_member h fid)")
    case True
    then show ?thesis using assms(1) same by (simp add: append_run_throws)
  next
    case False
    with assms(2) have proto: "fid = ''__proto__''" by (simp add: inherited_name_def)
    from False same
    have ok: "history st (flowId r) \<noteq> None \<or> \<not> truthy (inherited_member h (flowId r))"
      by simp
    show ?thesis
      using assms(1) same proto by (simp add: append_run_history [OF ok] member_set_def)
  qed
qed

lemma foldl_append_run_history_inherited:
  "history st fid = None \<Longrightarrow> inherited_name h fid \<Longrightarrow>
   history (foldl (append_run h) st rs) fid = None"
proof (induction rs arbitrary: st)
  case Nil
  then show ?case by simp
next
  case (Cons r rs)
  from append_run_history_inherited [OF Cons.prems]
  have "history (append_run h st r) fid = None" .
  from Cons.IH [OF this Cons.prems(2)] show ?case by simp
qed

text \<open>
  C4. After any sequence of appended run records, the history stored for a flow holds at
  most 50 records (in a store that held at most 50 for it before; in particular from the
  empty store), the most recent first: from the empty store it is the runs of that flow
  in reverse order of appending, cut to the first 50. (Under a flow id that is the name of
  a member that every object inherits, such as \<^verbatim>\<open>constructor\<close>, the empty store takes no
  history at all; no flow is created with such an id.) Appending a run to a history of 50
  records drops the last (oldest) one, and 50 remain.
\<close>

theorem history_capped_at_50:
  "((case history st fid of None \<Rightarrow> True | Some old \<Rightarrow> length old \<le> 50) \<longrightarrow>
      (case history (foldl (append_run h) st rs) fid of
         None \<Rightarrow> True | Some hs \<Rightarrow> length hs \<le> 50))
   \<and> history (foldl (append_run h) empty_state rs) fid =
       (let xs = filter (\<lambda>r. flowId r = fid) rs in
        if xs = [] \<or> inherited_name h fid then None
        else Some (take 50 (map normalizeRun (rev xs))))
   \<and> (history st (flowId r) = Some old \<and> length old = 50 \<longrightarrow>
        history (append_run h st r) (flowId r) = Some (normalizeRun r # butlast old)
        \<and> length (normalizeRun r # butlast old) = 50)"
proof (intro conjI impI)
  assume "case history st fid of None \<Rightarrow> True | Some old \<Rightarrow> length old \<le> 50"
  then show "case history (foldl (append_run h) st rs) fid of
         None \<Rightarrow> True | Some hs \<Rightarrow> length hs \<le> 50"
    by (rule foldl_append_run_cap)
next
  show "history (foldl (append_run h) empty_state rs) fid =
       (let xs = filter (\<lambda>r. flowId r = fid) rs in
        if xs = [] \<or> inherited_name h fid then None
        else Some (take 50 (map normalizeRun (rev xs))))"
  proof (cases "inherited_name h fid")
    case True
    have "history empty_state fid = None" by (simp add: empty_state_def)
    from foldl_append_run_history_inherited [OF this True]
    show ?thesis using True by (simp add: Let_def)
  next
    case False
    then show ?thesis
      by (simp add: foldl_append_run_history Let_def empty_state_def)
  qed
next
  assume a: "history st (flowId r) = Some old \<and> length old = 50"
  then have ok: "history st (flowId r) \<noteq> None \<or> \<not> truthy (inherited_member h (flowId r))"
    by auto
  show "history (append_run h st r) (flowId r) = Some (normalizeRun r # butlast old)"
    using a by (simp add: append_run_history [OF ok] member_set_def butlast_conv_take)
  show "length (normalizeRun r # butlast old) = 50"
    using a by simp
qed

theorem history_capped_at_50_witness:
  "length (replicate 50 (demo_run ''old'')) \<le> 50
   \<and> (case history (foldl (append_run demo_host) full_state [demo_run ''a'', demo_run ''b''])
             ''price-watch''
       of None \<Rightarrow> False | Some hs \<Rightarrow> length hs \<le> 50)
   \<and> \<not> inherited_name demo_host ''price-watch''
   \<and> history (foldl (append_run demo_host) empty_state [demo_run ''a'', demo_run ''b''])
        ''price-watch''
       = Some [normalizeRun (demo_run ''b''), normalizeRun (demo_run ''a'')]
   \<and> history (append_run demo_host full_state (demo_run ''new'')) ''price-watch''
       = Some (normalizeRun (demo_run ''new'') # replicate 49 (demo_run ''old''))
   \<and> inherited_name demo_host ''constructor''
   \<and> history (foldl (append_run demo_host) empty_state [stray_run, stray_run]) ''constructor''
       = None"
proof -
  have plain: "\<not> inherited_name demo_host ''price-watch''"
    by (simp add: inherited_name_def inherited_member_def demo_host_def demo_inherited_def)
  have full: "history full_state (flowId (demo_run ''new'')) = Some (replicate 50 (demo_run ''old''))
      \<and> length (replicate 50 (demo_run ''old'')) = 50"
    by (simp add: full_state_def demo_run_def)
  have held: "history (foldl (append_run demo_host) full_state [demo_run ''a'', demo_run ''b''])
                ''price-watch'' \<noteq> None"
    using foldl_append_run_history [OF plain, of full_state "[demo_run ''a'', demo_run ''b'']"]
    by (simp add: Let_def demo_run_def)
  have bl: "butlast (replicate 50 (demo_run ''old'')) = replicate 49 (demo_run ''old'')"
    by (simp add: butlast_conv_take)
  note inst = history_capped_at_50 [of full_state "''price-watch''" demo_host
                 "[demo_run ''a'', demo_run ''b'']" "demo_run ''new''"
                 "replicate 50 (demo_run ''old'')"]
  have cap: "case history (foldl (append_run demo_host) full_state [demo_run ''a'', demo_run ''b''])
             ''price-watch'' of None \<Rightarrow> False | Some hs \<Rightarrow> length hs \<le> 50"
    using inst [THEN conjunct1] held by (auto simp: full_state_def split: option.splits)
  have closed: "history (foldl (append_run demo_host) empty_state [demo_run ''a'', demo_run ''b''])
        ''price-watch'' = Some [normalizeRun (demo_run ''b''), normalizeRun (demo_run ''a'')]"
    using inst [THEN conjunct2, THEN conjunct1] plain by (simp add: demo_run_def)
  have inh: "inherited_name demo_host ''constructor''"
    by (simp add: inherited_name_def inherited_member_def demo_host_def demo_inherited_def)
  have stray: "history (foldl (append_run demo_host) empty_state [stray_run, stray_run])
                 ''constructor'' = None"
    using history_capped_at_50 [of full_state "''constructor''" demo_host
            "[stray_run, stray_run]" "demo_run ''new''" "replicate 50 (demo_run ''old'')",
            THEN conjunct2, THEN conjunct1] inh
    by (simp add: Let_def)
  have evict: "history (append_run demo_host full_state (demo_run ''new'')) ''price-watch''
       = Some (normalizeRun (demo_run ''new'') # replicate 49 (demo_run ''old''))"
    using inst [THEN conjunct2, THEN conjunct2] full bl by (simp add: demo_run_def)
  show ?thesis using plain cap closed evict inh stray by simp
qed




subsection \<open>The due-time check\<close>

text \<open>
  C2. Let the reference instant be \<^verbatim>\<open>lastRunAt\<close> when it is present (a non-empty text, read
  as a date), and \<^verbatim>\<open>now\<close> minus 60 seconds otherwise. When the cron library gives \<open>nxt\<close> as
  the next occurrence of the schedule strictly after the reference instant in UTC, \<^verbatim>\<open>isDue\<close>
  returns true if and only if \<open>nxt \<le> now\<close>.
\<close>

theorem isDue_next_occurrence:
  assumes "lastRun \<noteq> Some []"
    and "cron_next h s (case lastRun of None \<Rightarrow> Some (t - 60000) | Some l \<Rightarrow> Date_parse h l)
           = Inr (Some nxt)"
  shows "fst (isDue h s lastRun (Some t)) = (nxt \<le> t)"
  using assms by (auto simp: isDue_def date_le_def Let_def split: option.splits)

theorem isDue_next_occurrence_witness:
  "cron_next demo_host ''*/5 * * * *'' (Date_parse demo_host ''2025-01-01T11:55:00Z'')
       = Inr (Some 1735732800000)
   \<and> fst (isDue demo_host ''*/5 * * * *'' (Some ''2025-01-01T11:55:00Z'') (Some 1735732800000))
   \<and> \<not> fst (isDue demo_host ''*/5 * * * *'' (Some ''2025-01-01T11:55:00Z'') (Some 1735732560000))
   \<and> cron_next demo_host ''0 12 * * *'' (Some (1735732800000 - 60000)) = Inr (Some 1735732800000)
   \<and> fst (isDue demo_host ''0 12 * * *'' None (Some 1735732800000))"
proof -
  have present: "Some ''2025-01-01T11:55:00Z'' \<noteq> Some []" by simp
  have absent: "(None :: string option) \<noteq> Some []" by simp
  have n1: "cron_next demo_host ''*/5 * * * *''
              (case Some ''2025-01-01T11:55:00Z'' of None \<Rightarrow> Some (1735732800000 - 60000)
               | Some l \<Rightarrow> Date_parse demo_host l) = Inr (Some 1735732800000)"
    by (simp add: demo_host_def demo_cron_next_def demo_date_parse_def)
  have n2: "cron_next demo_host ''*/5 * * * *''
              (case Some ''2025-01-01T11:55:00Z'' of None \<Rightarrow> Some (1735732560000 - 60000)
               | Some l \<Rightarrow> Date_parse demo_host l) = Inr (Some 1735732800000)"
    by (simp add: demo_host_def demo_cron_next_def demo_date_parse_def)
  have n3: "cron_next demo_host ''0 12 * * *''
              (case None of None \<Rightarrow> Some (1735732800000 - 60000)
               | Some l \<Rightarrow> Date_parse demo_host l) = Inr (Some 1735732800000)"
    by (simp add: demo_host_def demo_cron_next_def)
  show ?thesis
    using isDue_next_occurrence [OF present n1] isDue_next_occurrence [OF present n2]
      isDue_next_occurrence [OF absent n3] n1 n3
    by simp
qed

text \<open>
  C7. When the cron library rejects the schedule, whatever the reference instant,
  \<^verbatim>\<open>isDue\<close> returns false for every \<^verbatim>\<open>lastRunAt\<close> and \<^verbatim>\<open>now\<close>, and what it has done besides
  is to write one diagnostic line that carries the schedule and the error. The function
  has no other outcome: the error is not passed on.
\<close>

theorem isDue_unparseable:
  assumes "\<And>d. isl (cron_next h s d)"
  shows "fst (isDue h s lastRun now) = False
         \<and> (\<exists>err. snd (isDue h s lastRun now)
                    = [''[cron] Invalid expression '' @ dquote @ s @ dquote @ '': '' @ err])"
proof -
  define ref where "ref = (case lastRun of
                       None \<Rightarrow> map_option (\<lambda>t. t - 60000) now
                     | Some l \<Rightarrow> if l \<noteq> [] then Date_parse h l
                                else map_option (\<lambda>t. t - 60000) now)"
  from assms [of ref] obtain err where "cron_next h s ref = Inl err"
    by (cases "cron_next h s ref") auto
  then show ?thesis
    unfolding isDue_def ref_def [symmetric] by (simp add: Let_def)
qed

theorem isDue_unparseable_witness:
  "(\<forall>d. isl (cron_next demo_host ''every day'' d))
   \<and> fst (isDue demo_host ''every day'' (Some ''2025-01-01T11:55:00Z'') (Some 1735732800000)) = False
   \<and> isDue demo_host ''every day'' None (Some 1735732800000)
     = (False, [''[cron] Invalid expression '' @ dquote @ ''every day'' @ dquote
                @ '': Error: Invalid cron expression''])"
proof -
  have bad: "isl (cron_next demo_host ''every day'' d)" for d
    by (simp add: demo_host_def demo_cron_next_def split: option.splits)
  have "isDue demo_host ''every day'' None (Some 1735732800000)
     = (False, [''[cron] Invalid expression '' @ dquote @ ''every day'' @ dquote
                @ '': Error: Invalid cron expression''])"
    by (simp add: demo_host_def demo_cron_next_def isDue_def)
  then show ?thesis
    using isDue_unparseable [OF bad, of "Some ''2025-01-01T11:55:00Z''" "Some 1735732800000"] bad
    by simp
qed

subsection \<open>Template interpolation\<close>

















subsection \<open>Flow ids\<close>

lemma id_char_not_dash: "is_id_char c \<Longrightarrow> c \<noteq> CHR ''-''"
  by (auto simp: is_id_char_def)

lemma replace_run: "\<forall>x\<in>set w. is_id_char x \<Longrightarrow> replace_non_alnum (w @ t) = w @ replace_non_alnum t"
  by (induction w) auto

lemma id_words_Nil: "id_words s = [] \<longleftrightarrow> (\<forall>x\<in>set s. \<not> is_id_char x)"
proof (induction s rule: id_words.induct)
  case 1
  then show ?case by simp
next
  case (2 c cs)
  show ?case
  proof (cases "is_id_char c")
    case True
    then show ?thesis by simp
  next
    case False
    have "set cs = set (takeWhile non_id cs) \<union> set (dropWhile non_id cs)"
      using set_append [of "takeWhile non_id cs" "dropWhile non_id cs"] by simp
    then have "(\<forall>x\<in>set cs. \<not> is_id_char x) \<longleftrightarrow> (\<forall>x\<in>set (dropWhile non_id cs). \<not> is_id_char x)"
      by (auto dest: set_takeWhileD)
    with False 2 show ?thesis by simp
  qed
qed

lemma takeWhile_all: "\<forall>x\<in>set (takeWhile P xs). P x"
  by (auto dest: set_takeWhileD)

lemma id_words_wf: "\<forall>w\<in>set (id_words s). w \<noteq> [] \<and> (\<forall>x\<in>set w. is_id_char x)"
proof (induction s rule: id_words.induct)
  case 1
  show ?case by simp
next
  case (2 c cs)
  show ?case
  proof (cases "is_id_char c")
    case True
    have W: "id_words (c # cs) = (c # takeWhile is_id_char cs) # id_words (dropWhile is_id_char cs)"
      using True by simp
    have "\<forall>x\<in>set (c # takeWhile is_id_char cs). is_id_char x"
      using True takeWhile_all [of is_id_char cs] by simp
    then show ?thesis
      unfolding W using "2.IH"(1) [OF True] by simp
  next
    case False
    have W: "id_words (c # cs) = id_words (dropWhile non_id cs)"
      using False by simp
    show ?thesis unfolding W using "2.IH"(2) [OF False] .
  qed
qed

lemma replace_structure:
  "replace_non_alnum s = lead s @ join ''-'' (id_words s) @ trail s"
proof (induction s rule: id_words.induct)
  case 1
  then show ?case by (simp add: lead_def trail_def)
next
  case (2 c cs)
  show ?case
  proof (cases "is_id_char c")
    case True
    let ?w = "c # takeWhile is_id_char cs"
    let ?t = "dropWhile is_id_char cs"
    have s: "c # cs = ?w @ ?t" by simp
    have w: "\<forall>x\<in>set ?w. is_id_char x" using True by (auto dest: set_takeWhileD)
    have R: "replace_non_alnum (c # cs) = ?w @ replace_non_alnum ?t"
      using replace_run [OF w, of ?t] by simp
    have IH: "replace_non_alnum ?t = lead ?t @ join ''-'' (id_words ?t) @ trail ?t"
      using 2(1) [OF True] .
    have W: "id_words (c # cs) = ?w # id_words ?t" using True by simp
    show ?thesis
    proof (cases "?t = []")
      case t: True
      have eq: "c # cs = ?w" using s t by simp
      have "last ?w \<in> set ?w" by (rule last_in_set) simp
      then have "is_id_char (last ?w)" using w by blast
      then have "is_id_char (last (c # cs))" by (simp only: eq [symmetric])
      then have tr: "trail (c # cs) = []" by (simp add: trail_def)
      have "replace_non_alnum (c # cs) = ?w" using R t by simp
      moreover have "id_words (c # cs) = [?w]" using W t by simp
      moreover have "lead (c # cs) = []" using True by (simp add: lead_def)
      ultimately show ?thesis using tr by simp
    next
      case t: False
      then have hdt: "\<not> is_id_char (hd ?t)" by (rule hd_dropWhile)
      then have leadt: "lead ?t = ''-''" using t by (simp add: lead_def)
      have "last (?w @ ?t) = last ?t" using t by (rule last_appendR)
      then have lasts: "last (c # cs) = last ?t" using arg_cong [OF s, of last] by simp
      show ?thesis
      proof (cases "id_words ?t = []")
        case e: True
        then have "\<not> is_id_char (last ?t)" using t by (simp add: id_words_Nil)
        then have tr: "trail (c # cs) = ''-''" using W lasts by (simp add: trail_def)
        have trt: "trail ?t = []" using e by (simp add: trail_def)
        have L: "lead (c # cs) = []" using True by (simp add: lead_def)
        show ?thesis unfolding R IH leadt L W tr trt e by simp
      next
        case ne: False
        then obtain v vs where vs: "id_words ?t = v # vs" by (cases "id_words ?t") auto
        have tr: "trail (c # cs) = trail ?t" using W lasts ne by (simp add: trail_def)
        have L: "lead (c # cs) = []" using True by (simp add: lead_def)
        show ?thesis unfolding R IH leadt L W tr vs by simp
      qed
    qed
  next
    case False
    let ?t = "dropWhile non_id cs"
    have R: "replace_non_alnum (c # cs) = CHR ''-'' # replace_non_alnum ?t" using False by simp
    have W: "id_words (c # cs) = id_words ?t" using False by simp
    have IH: "replace_non_alnum ?t = lead ?t @ join ''-'' (id_words ?t) @ trail ?t"
      using 2(2) [OF False] .
    have leadt: "lead ?t = []"
    proof (cases "?t = []")
      case True
      then show ?thesis by (simp add: lead_def)
    next
      case False
      then have "is_id_char (hd ?t)" using hd_dropWhile [of non_id cs] by simp
      then show ?thesis by (simp add: lead_def)
    qed
    have tr: "trail (c # cs) = trail ?t"
    proof (cases "id_words ?t = []")
      case True
      then show ?thesis using W by (simp add: trail_def)
    next
      case ne: False
      have "?t \<noteq> []"
      proof
        assume "?t = []"
        then have "id_words ?t = []" by (simp only: id_words.simps)
        with ne show False by simp
      qed
      then have "last ((c # takeWhile non_id cs) @ ?t) = last ?t" by (rule last_appendR)
      then have "last (c # cs) = last ?t" by simp
      then show ?thesis using W by (simp add: trail_def)
    qed
    have L: "lead (c # cs) = ''-''" using False by (simp add: lead_def)
    show ?thesis unfolding R IH leadt L W tr by simp
  qed
qed


lemma join_ends:
  "words_ok ws \<Longrightarrow> ws \<noteq> [] \<Longrightarrow>
   join ''-'' ws \<noteq> [] \<and> is_id_char (hd (join ''-'' ws)) \<and> is_id_char (last (join ''-'' ws))"
proof (induction "''-''" ws rule: join.induct)
  case 1
  then show ?case by simp
next
  case (2 x)
  then have "x \<noteq> []" "\<forall>c\<in>set x. is_id_char c" by (simp_all add: words_ok_def)
  then show ?case by (cases x) auto
next
  case (3 x y ys)
  then have x: "x \<noteq> []" "\<forall>c\<in>set x. is_id_char c" and ok: "words_ok (y # ys)"
    by (simp_all add: words_ok_def)
  from "3.hyps" [OF ok] have J: "join ''-'' (y # ys) \<noteq> []" "is_id_char (last (join ''-'' (y # ys)))"
    by simp_all
  have "hd (join ''-'' (x # y # ys)) = hd x" using x by simp
  moreover have "is_id_char (hd x)" using x by (cases x) auto
  moreover have "last (join ''-'' (x # y # ys)) = last (join ''-'' (y # ys))" using J by simp
  ultimately show ?case using J x by simp
qed

lemma strip_dashes_ends:
  assumes "m = [] \<or> (hd m \<noteq> CHR ''-'' \<and> last m \<noteq> CHR ''-'')"
    and "l = [] \<or> l = ''-''" and "t = [] \<or> t = ''-''" and "m = [] \<longrightarrow> t = []"
  shows "strip_dashes (l @ m @ t) = m"
proof (cases "m = []")
  case True
  with assms show ?thesis by (auto simp: strip_dashes_def)
next
  case False
  then obtain a as where m: "m = a # as" by (cases m) auto
  with assms(1) have a: "a \<noteq> CHR ''-''" by simp
  have d1: "dropWhile is_dash (l @ m @ t) = m @ t"
    using assms(2) a m by auto
  obtain b bs where r: "rev m = b # bs" using False by (cases "rev m") auto
  then have "last m = b" using hd_rev [of m] by simp
  with assms(1) False have b: "b \<noteq> CHR ''-''" by simp
  have "rev (m @ t) = rev t @ b # bs" using r by simp
  then have "dropWhile is_dash (rev (m @ t)) = b # bs"
    using assms(3) b by auto
  then have "rev (dropWhile is_dash (rev (m @ t))) = rev (rev m)" using r by simp
  then show ?thesis using d1 by (simp add: strip_dashes_def)
qed

lemma squeeze_run: "\<forall>x\<in>set w. is_id_char x \<Longrightarrow> squeeze_dashes (w @ t) = w @ squeeze_dashes t"
  by (induction w) (auto dest: id_char_not_dash)

lemma squeeze_join: "words_ok ws \<Longrightarrow> squeeze_dashes (join ''-'' ws) = join ''-'' ws"
proof (induction "''-''" ws rule: join.induct)
  case 1
  then show ?case by simp
next
  case (2 x)
  then have "\<forall>c\<in>set x. is_id_char c" by (simp add: words_ok_def)
  from squeeze_run [OF this, of "[]"] show ?case by simp
next
  case (3 x y ys)
  then have x: "\<forall>c\<in>set x. is_id_char c" and ok: "words_ok (y # ys)"
    by (simp_all add: words_ok_def)
  let ?J = "join ''-'' (y # ys)"
  from join_ends [OF ok] have J: "?J \<noteq> []" "is_id_char (hd ?J)" by simp_all
  then have "hd ?J \<noteq> CHR ''-''" by (auto dest: id_char_not_dash)
  then have "squeeze_dashes (CHR ''-'' # ?J) = CHR ''-'' # squeeze_dashes ?J" by simp
  then have "squeeze_dashes (CHR ''-'' # ?J) = CHR ''-'' # ?J" using "3.hyps" [OF ok] by simp
  then show ?case using squeeze_run [OF x, of "CHR ''-'' # ?J"] by simp
qed

lemma generateFlowId_spec: "generateFlowId nm = spec_flow_id nm"
proof -
  let ?s = "toLowerCase nm"
  let ?J = "join ''-'' (id_words ?s)"
  have ok: "words_ok (id_words ?s)" using id_words_wf [of ?s] by (simp add: words_ok_def)
  have ends: "?J = [] \<or> (hd ?J \<noteq> CHR ''-'' \<and> last ?J \<noteq> CHR ''-'')"
  proof (cases "id_words ?s = []")
    case True
    then show ?thesis by simp
  next
    case False
    from join_ends [OF ok False] show ?thesis by (auto dest: id_char_not_dash)
  qed
  have t: "?J = [] \<longrightarrow> trail ?s = []"
  proof
    assume "?J = []"
    then have "id_words ?s = []" using join_ends [OF ok] by auto
    then show "trail ?s = []" by (simp add: trail_def)
  qed
  have "strip_dashes (lead ?s @ ?J @ trail ?s) = ?J"
    by (rule strip_dashes_ends [OF ends _ _ t]) (simp_all add: lead_def trail_def)
  then have "strip_dashes (replace_non_alnum ?s) = ?J" by (simp only: replace_structure)
  then show ?thesis using squeeze_join [OF ok] by (simp add: generateFlowId_def spec_flow_id_def)
qed

text \<open>
  C9. The id derived from a name is a function of the name alone, and it is the id the
  specification describes: the name in lower case, its runs of characters other than
  \<^verbatim>\<open>a-z0-9\<close> each replaced by one dash, no dash at either end. Creating a flow (with a
  payload that the schema accepts) whose name derives the id of a stored flow answers 409
  \<^verbatim>\<open>Flow already exists\<close> and leaves the store as it was; so after a flow was created, a
  second one whose name normalizes to the same id is turned down. A first flow is created
  when its id is not the name of a member that every object inherits; an id that is such
  a name (\<^verbatim>\<open>constructor\<close>) is answered 409 as well, and a payload that the schema turns
  down is answered with the error of the schema. Nothing is stored in these cases.
\<close>

theorem flow_id_derivation:
  "generateFlowId nm = spec_flow_id nm
   \<and> (FlowConfigSchema_ok h payload \<and> flows st (generateFlowId (name payload)) \<noteq> None \<longrightarrow>
        create_flow h st payload now = (Inr (Text 409 ''Flow already exists''), st))
   \<and> (FlowConfigSchema_ok h p1 \<and> FlowConfigSchema_ok h p2
        \<and> flows st (generateFlowId (name p1)) = None
        \<and> \<not> inherited_name h (generateFlowId (name p1))
        \<and> spec_flow_id (name p2) = spec_flow_id (name p1) \<longrightarrow>
        (\<exists>r st1. create_flow h st p1 t1 = (Inr (Json 201 r), st1)
           \<and> flows st1 (generateFlowId (name p1)) = Some (Flow r)
           \<and> create_flow h st1 p2 t2 = (Inr (Text 409 ''Flow already exists''), st1)))
   \<and> (FlowConfigSchema_ok h payload
        \<and> truthy (inherited_member h (generateFlowId (name payload))) \<longrightarrow>
        create_flow h st payload now = (Inr (Text 409 ''Flow already exists''), st))
   \<and> (\<not> FlowConfigSchema_ok h payload \<longrightarrow>
        create_flow h st payload now = (Inl ''ZodError'', st))"
proof (intro conjI impI)
  show "generateFlowId nm = spec_flow_id nm" by (rule generateFlowId_spec)
next
  assume "FlowConfigSchema_ok h payload \<and> flows st (generateFlowId (name payload)) \<noteq> None"
  then show "create_flow h st payload now = (Inr (Text 409 ''Flow already exists''), st)"
    by (auto simp add: create_flow_def Let_def flows_member_truthy_def)
next
  assume a: "FlowConfigSchema_ok h p1 \<and> FlowConfigSchema_ok h p2
        \<and> flows st (generateFlowId (name p1)) = None
        \<and> \<not> inherited_name h (generateFlowId (name p1))
        \<and> spec_flow_id (name p2) = spec_flow_id (name p1)"
  then have same: "generateFlowId (name p2) = generateFlowId (name p1)"
    by (simp add: generateFlowId_spec)
  from a have free: "\<not> flows_member_truthy h st (generateFlowId (name p1))"
    and np: "generateFlowId (name p1) \<noteq> ''__proto__''"
    by (simp_all add: flows_member_truthy_def inherited_name_def)
  define r where "r = withDefaults \<lparr>name = name p1, schedule = schedule p1, enabled = enabled p1,
      steps = steps p1, flow_id = generateFlowId (name p1), createdAt = t1, updatedAt = t1,
      lastRunAt = None\<rparr>"
  define st1 where "st1 = st\<lparr>flows := (flows st)(generateFlowId (name p1) \<mapsto> Flow r)\<rparr>"
  have c1: "create_flow h st p1 t1 = (Inr (Json 201 r), st1)"
    using a free np by (simp add: create_flow_def Let_def r_def st1_def member_set_def)
  have stored: "flows st1 (generateFlowId (name p1)) = Some (Flow r)"
    by (simp add: st1_def)
  have c2: "create_flow h st1 p2 t2 = (Inr (Text 409 ''Flow already exists''), st1)"
    using a stored same by (simp add: create_flow_def Let_def flows_member_truthy_def)
  show "\<exists>r st1. create_flow h st p1 t1 = (Inr (Json 201 r), st1)
           \<and> flows st1 (generateFlowId (name p1)) = Some (Flow r)
           \<and> create_flow h st1 p2 t2 = (Inr (Text 409 ''Flow already exists''), st1)"
    using c1 stored c2 by blast
next
  assume "FlowConfigSchema_ok h payload
        \<and> truthy (inherited_member h (generateFlowId (name payload)))"
  then show "create_flow h st payload now = (Inr (Text 409 ''Flow already exists''), st)"
    by (auto simp add: create_flow_def Let_def flows_member_truthy_def split: option.splits)
next
  assume "\<not> FlowConfigSchema_ok h payload"
  then show "create_flow h st payload now = (Inl ''ZodError'', st)"
    by (simp add: create_flow_def)
qed

theorem flow_id_derivation_witness:
  "generateFlowId ''Price Watch'' = ''price-watch''
   \<and> generateFlowId ''  price--WATCH!! '' = ''price-watch''
   \<and> spec_flow_id ''  price--WATCH!! '' = spec_flow_id ''Price Watch''
   \<and> FlowConfigSchema_ok demo_host (demo_config ''Price Watch'')
   \<and> flows empty_state (generateFlowId ''Price Watch'') = None
   \<and> \<not> inherited_name demo_host (generateFlowId ''Price Watch'')
   \<and> (\<exists>r st1. create_flow demo_host empty_state (demo_config ''Price Watch'') ''t1''
                  = (Inr (Json 201 r), st1)
         \<and> create_flow demo_host st1 (demo_config ''  price--WATCH!! '') ''t2''
            = (Inr (Text 409 ''Flow already exists''), st1))
   \<and> flows full_state (generateFlowId ''  price--WATCH!! '') \<noteq> None
   \<and> create_flow demo_host full_state (demo_config ''  price--WATCH!! '') ''t2''
       = (Inr (Text 409 ''Flow already exists''), full_state)
   \<and> truthy (inherited_member demo_host (generateFlowId ''Constructor''))
   \<and> create_flow demo_host empty_state (demo_config ''Constructor'') ''t1''
       = (Inr (Text 409 ''Flow already exists''), empty_state)
   \<and> \<not> FlowConfigSchema_ok demo_host bad_config
   \<and> create_flow demo_host full_state bad_config ''t1'' = (Inl ''ZodError'', full_state)"
proof -
  have g1: "generateFlowId ''Price Watch'' = ''price-watch''" by code_simp
  have g2: "generateFlowId ''  price--WATCH!! '' = ''price-watch''" by code_simp
  have g3: "generateFlowId ''Constructor'' = ''constructor''" by code_simp
  have ok: "FlowConfigSchema_ok demo_host (demo_config nm)" for nm
    by (simp add: FlowConfigSchema_ok_def demo_config_def)
  have bad: "\<not> FlowConfigSchema_ok demo_host bad_config"
    by (simp add: FlowConfigSchema_ok_def bad_config_def demo_config_def demo_fetch_def)
  have nm: "name (demo_config n) = n" for n
    by (simp add: demo_config_def)
  have free: "flows empty_state (generateFlowId ''Price Watch'') = None"
    by (simp add: empty_state_def)
  have plain: "\<not> inherited_name demo_host (generateFlowId ''Price Watch'')"
    unfolding g1
    by (simp add: inherited_name_def inherited_member_def demo_host_def demo_inherited_def)
  have inh: "truthy (inherited_member demo_host (generateFlowId ''Constructor''))"
    unfolding g3 by (simp add: inherited_member_def demo_host_def demo_inherited_def)
  have taken: "flows full_state (generateFlowId ''  price--WATCH!! '') \<noteq> None"
    by (simp add: g2 full_state_def)
  have same: "spec_flow_id ''  price--WATCH!! '' = spec_flow_id ''Price Watch''"
    using flow_id_derivation [of "''Price Watch''", THEN conjunct1]
      flow_id_derivation [of "''  price--WATCH!! ''", THEN conjunct1] g1 g2 by simp
  have prem1: "FlowConfigSchema_ok demo_host (demo_config ''Price Watch'')
      \<and> FlowConfigSchema_ok demo_host (demo_config ''  price--WATCH!! '')
      \<and> flows empty_state (generateFlowId (name (demo_config ''Price Watch''))) = None
      \<and> \<not> inherited_name demo_host (generateFlowId (name (demo_config ''Price Watch'')))
      \<and> spec_flow_id (name (demo_config ''  price--WATCH!! ''))
          = spec_flow_id (name (demo_config ''Price Watch''))"
    unfolding nm using ok free plain same by blast
  have prem2: "FlowConfigSchema_ok demo_host (demo_config ''  price--WATCH!! '')
      \<and> flows full_state (generateFlowId (name (demo_config ''  price--WATCH!! ''))) \<noteq> None"
    unfolding nm using ok taken by blast
  have prem3: "FlowConfigSchema_ok demo_host (demo_config ''Constructor'')
      \<and> truthy (inherited_member demo_host (generateFlowId (name (demo_config ''Constructor''))))"
    unfolding nm using ok inh by blast
  have twice: "\<exists>r st1. create_flow demo_host empty_state (demo_config ''Price Watch'') ''t1''
                          = (Inr (Json 201 r), st1)
         \<and> create_flow demo_host st1 (demo_config ''  price--WATCH!! '') ''t2''
            = (Inr (Text 409 ''Flow already exists''), st1)"
    using flow_id_derivation [where h = demo_host and st = empty_state
            and ?p1.0 = "demo_config ''Price Watch''"
            and ?p2.0 = "demo_config ''  price--WATCH!! ''" and ?t1.0 = "''t1''" and ?t2.0 = "''t2''",
            THEN conjunct2, THEN conjunct2, THEN conjunct1, THEN mp, OF prem1]
    by blast
  have dup: "create_flow demo_host full_state (demo_config ''  price--WATCH!! '') ''t2''
       = (Inr (Text 409 ''Flow already exists''), full_state)"
    using flow_id_derivation [where h = demo_host and st = full_state
            and payload = "demo_config ''  price--WATCH!! ''" and now = "''t2''",
            THEN conjunct2, THEN conjunct1, THEN mp, OF prem2] .
  have inherited_dup: "create_flow demo_host empty_state (demo_config ''Constructor'') ''t1''
       = (Inr (Text 409 ''Flow already exists''), empty_state)"
    using flow_id_derivation [where h = demo_host and st = empty_state
            and payload = "demo_config ''Constructor''" and now = "''t1''",
            THEN conjunct2, THEN conjunct2, THEN conjunct2, THEN conjunct1, THEN mp, OF prem3] .
  have invalid: "create_flow demo_host full_state bad_config ''t1'' = (Inl ''ZodError'', full_state)"
    using flow_id_derivation [where h = demo_host and st = full_state
            and payload = bad_config and now = "''t1''",
            THEN conjunct2, THEN conjunct2, THEN conjunct2, THEN conjunct2, THEN mp, OF bad] .
  show ?thesis
    using g1 g2 same ok free plain twice taken dup inh inherited_dup bad invalid by blast
qed

subsection \<open>Rule evaluation\<close>




subsection \<open>The step interpreter\<close>

lemma read_clock_simps [simp]:
  "fst (read_clock h c) = toISOString h (tick c)"
  "results (snd (read_clock h c)) = results c"
  "results_proto (snd (read_clock h c)) = results_proto c"
  "logs (snd (read_clock h c)) = logs c"
  "tick (snd (read_clock h c)) = Suc (tick c)"
  by (simp_all add: read_clock_def)

lemma push_log_simps [simp]:
  "results (push_log l c) = results c"
  "results_proto (push_log l c) = results_proto c"
  "logs (push_log l c) = logs c @ [l]"
  "tick (push_log l c) = tick c"
  by (simp_all add: push_log_def)

lemma step_failed_eq:
  "step_failed h s msg c =
     (Return False,
      \<lparr>stepId = step_label s, step_output = None, step_error = Some msg,
       timestamp = toISOString h (tick c)\<rparr>,
      snd (read_clock h (push_log (''['' @ step_type s @ ''] Error: '' @ msg) c)))"
  by (simp add: step_failed_def read_clock_def push_log_def)

lemma step_done_eq:
  "step_done h s out c =
     (Next,
      \<lparr>stepId = step_label s, step_output = Some out, step_error = None,
       timestamp = toISOString h (tick c)\<rparr>,
      snd (read_clock h c))"
  by (simp add: step_done_def read_clock_def)

lemma short_circuit_eq:
  "short_circuit h line kind c =
     (Return True,
      \<lparr>stepId = kind, step_output = Some (JBool False), step_error = None,
       timestamp = toISOString h (tick c)\<rparr>,
      snd (read_clock h (push_log line c)))"
  by (simp add: short_circuit_def read_clock_def push_log_def)

lemma executeCondition_ctx [simp]:
  "results (snd (executeCondition h r c)) = results c"
  "tick (snd (executeCondition h r c)) = tick c"
  by (simp_all add: executeCondition_def Let_def)

lemma executeLogic_ctx [simp]:
  "results (snd (executeLogic h m rs c)) = results c"
  "tick (snd (executeLogic h m rs c)) = tick c"
  by (simp_all add: executeLogic_def Let_def)

lemma executeLog_ctx [simp]:
  "results (snd (executeLog h m inc c)) = results c"
  "tick (snd (executeLog h m inc c)) = tick c"
  by (simp_all add: executeLog_def Let_def)

lemma executeFetch_ctx [simp]:
  "results (snd (executeFetch h f c)) = results c"
  "tick (snd (executeFetch h f c)) = Suc (tick c)"
  by (simp_all add: executeFetch_def Let_def split: net_result.splits sum.splits)

lemma executeNotify_ctx:
  "results (snd (executeNotify h n c)) = results c"
  "tick c \<le> tick (snd (executeNotify h n c))"
  by (simp_all add: executeNotify_def Let_def split: net_result.splits sum.splits)


lemma update_key_in:
  "(a, b) \<in> set (AList.update k v al) \<Longrightarrow> a = k \<or> a \<in> fst ` set al"
proof -
  assume "(a, b) \<in> set (AList.update k v al)"
  then have "a \<in> fst ` set (AList.update k v al)" by force
  then show ?thesis by (simp add: AList.dom_update)
qed

lemma assign_result_ctx:
  "tick (assign_result k v c) = tick c"
  "logs (assign_result k v c) = logs c"
  "fst ` set (results (assign_result k v c)) \<subseteq> insert k (fst ` set (results c))"
  by (auto simp: assign_result_def dest: update_key_in)

lemma run_step_ctx:
  assumes "run_step h s c = (ctl, r, c')"
  shows "tick c < tick c'"
    and "fst ` set (results c') \<subseteq> fst ` set (results c) \<union> set (fetch_ids [s])"
proof -
  have "tick c < tick c' \<and> fst ` set (results c') \<subseteq> fst ` set (results c) \<union> set (fetch_ids [s])"
  proof (cases s)
    case (Fetch f)
    obtain x c1 where e: "executeFetch h f c = (x, c1)" by (cases "executeFetch h f c")
    have c1: "results c1 = results c" "tick c1 = Suc (tick c)"
      using executeFetch_ctx [of h f c] e by simp_all
    have sub: "fst ` set (results (assign_result (fetch_id f) v c1))
                 \<subseteq> fst ` set (results c) \<union> {fetch_id f}" for v
      using assign_result_ctx(3) [of "fetch_id f" v c1] c1 by auto
    show ?thesis
    proof (cases x)
      case (Inl msg)
      then show ?thesis
        using assms Fetch e c1 by (auto simp: step_failed_eq)
    next
      case (Inr out)
      with assms Fetch e
      have c': "c' = snd (read_clock h (assign_result (fetch_id f) out c1))"
        by (simp add: step_done_eq)
      show ?thesis
        unfolding c' using sub [of out] c1 Fetch by (simp add: assign_result_ctx(1))
    qed
  next
    case (Condition rule)
    obtain x c1 where e: "executeCondition h rule c = (x, c1)" by (cases "executeCondition h rule c")
    have c1: "results c1 = results c" "tick c1 = tick c"
      using executeCondition_ctx [of h rule c] e by simp_all
    show ?thesis
      using assms Condition e c1
      by (auto simp: short_circuit_eq step_done_eq split: if_splits)
  next
    case (Logic m rs)
    obtain x c1 where e: "executeLogic h m rs c = (x, c1)" by (cases "executeLogic h m rs c")
    have c1: "results c1 = results c" "tick c1 = tick c"
      using executeLogic_ctx [of h m rs c] e by simp_all
    show ?thesis
      using assms Logic e c1
      by (auto simp: short_circuit_eq step_done_eq split: if_splits)
  next
    case (Delay d)
    show ?thesis
      using assms Delay
      by (auto simp: step_failed_eq step_done_eq split: sum.splits)
  next
    case (Log m inc)
    obtain x c1 where e: "executeLog h m inc c = (x, c1)" by (cases "executeLog h m inc c")
    have c1: "results c1 = results c" "tick c1 = tick c"
      using executeLog_ctx [of h m inc c] e by simp_all
    show ?thesis
      using assms Log e c1
      by (auto simp: step_done_eq)
  next
    case (Notify n)
    obtain x c1 where e: "executeNotify h n c = (x, c1)" by (cases "executeNotify h n c")
    have c1: "results c1 = results c" "tick c \<le> tick c1"
      using executeNotify_ctx(1) [of h n c] executeNotify_ctx(2) [of c h n] e by simp_all
    show ?thesis
      using assms Notify e c1
      by (cases x) (auto simp: step_failed_eq step_done_eq)
  qed
  then show "tick c < tick c'"
    and "fst ` set (results c') \<subseteq> fst ` set (results c) \<union> set (fetch_ids [s])"
    by simp_all
qed

lemma fetch_ids_append: "fetch_ids (a @ b) = fetch_ids a @ fetch_ids b"
  by (induction a rule: fetch_ids.induct) simp_all

lemma steps_pass_loop:
  "steps_pass h pre acc c = Some (acc', c') \<Longrightarrow>
   executeSteps_loop h (pre @ rest) acc c = executeSteps_loop h rest acc' c'"
proof (induction pre arbitrary: acc c)
  case Nil
  then show ?case by simp
next
  case (Cons s pre)
  obtain ctl r c1 where rs: "run_step h s c = (ctl, r, c1)" by (cases "run_step h s c")
  show ?case
  proof (cases ctl)
    case Next
    with Cons.prems rs have "steps_pass h pre (acc @ [r]) c1 = Some (acc', c')" by simp
    from Cons.IH [OF this] show ?thesis using rs Next by simp
  next
    case (Return b)
    with Cons.prems rs show ?thesis by simp
  qed
qed

lemma run_step_Next_label:
  "run_step h s c = (Next, r, c') \<Longrightarrow> stepId r = step_label s"
  by (cases s)
    (auto simp: step_failed_eq step_done_eq short_circuit_eq
      split: prod.splits sum.splits if_splits)

lemma steps_pass_results:
  "steps_pass h pre acc c = Some (acc', c') \<Longrightarrow>
   \<exists>rs. acc' = acc @ rs \<and> length rs = length pre \<and> map stepId rs = map step_label pre
        \<and> tick c \<le> tick c'
        \<and> fst ` set (results c') \<subseteq> fst ` set (results c) \<union> set (fetch_ids pre)"
proof (induction pre arbitrary: acc c)
  case Nil
  then show ?case by simp
next
  case (Cons s pre)
  obtain ctl r c1 where rs: "run_step h s c = (ctl, r, c1)" by (cases "run_step h s c")
  show ?case
  proof (cases ctl)
    case Next
    with Cons.prems rs have "steps_pass h pre (acc @ [r]) c1 = Some (acc', c')" by simp
    from Cons.IH [OF this] obtain rs' where
      IH: "acc' = (acc @ [r]) @ rs'" "length rs' = length pre" "map stepId rs' = map step_label pre"
        "tick c1 \<le> tick c'"
        "fst ` set (results c') \<subseteq> fst ` set (results c1) \<union> set (fetch_ids pre)"
      by blast
    have lab: "stepId r = step_label s" using rs Next by (simp add: run_step_Next_label)
    have t: "tick c < tick c1"
      and d: "fst ` set (results c1) \<subseteq> fst ` set (results c) \<union> set (fetch_ids [s])"
      using run_step_ctx [OF rs] by simp_all
    have f: "fetch_ids (s # pre) = fetch_ids [s] @ fetch_ids pre"
      using fetch_ids_append [of "[s]" pre] by simp
    have "acc' = acc @ (r # rs')" using IH(1) by simp
    moreover have "length (r # rs') = length (s # pre)" using IH(2) by simp
    moreover have "map stepId (r # rs') = map step_label (s # pre)" using IH(3) lab by simp
    moreover have "tick c \<le> tick c'" using t IH(4) by simp
    moreover have "fst ` set (results c') \<subseteq> fst ` set (results c) \<union> set (fetch_ids (s # pre))"
      using IH(5) d unfolding f by auto
    ultimately show ?thesis by blast
  next
    case (Return b)
    with Cons.prems rs show ?thesis by simp
  qed
qed




text \<open>
  C1. Let the steps before a condition or logic step all go through, and let that step
  evaluate to false in the context they leave. Then \<^verbatim>\<open>executeSteps\<close> returns at that step
  with \<^verbatim>\<open>success = true\<close>, whatever steps follow it: the results are those of the steps
  before and one for the step itself (with output \<^verbatim>\<open>false\<close> and no error), one per step in
  order, and none for a later step. The context it leaves is the one the step found but
  for the two log lines of the step and one reading of the clock: no later step has
  written a log line, stored a result or called the outside world.
\<close>

theorem false_condition_stops:
  assumes "steps_pass h pre [] c = Some (rs, c1)" and "evaluates_false h s c1"
  shows "executeSteps h (pre @ s # post) c
           = (\<lparr>success = True,
               stepResults = rs @ [\<lparr>stepId = step_type s, step_output = Some (JBool False),
                                    step_error = None,
                                    timestamp = toISOString h (tick c1)\<rparr>]\<rparr>,
              c1\<lparr>logs := logs c1 @ false_step_lines h s, tick := Suc (tick c1)\<rparr>)
         \<and> length rs = length pre
         \<and> map stepId rs = map step_label pre"
proof -
  from steps_pass_results [OF assms(1)]
  have rs: "length rs = length pre" "map stepId rs = map step_label pre" by auto
  have loop: "executeSteps h (pre @ s # post) c = executeSteps_loop h (s # post) rs c1"
    unfolding executeSteps_def using steps_pass_loop [OF assms(1)] .
  show ?thesis
  proof (cases s)
    case (Condition r)
    from assms(2) Condition have f: "\<not> evaluateRule h r c1"
      by (simp add: executeCondition_def Let_def)
    show ?thesis
      unfolding loop using Condition f rs
      by (simp add: executeCondition_def Let_def short_circuit_def read_clock_def push_log_def
            bool_text_def)
  next
    case (Logic m conds)
    from assms(2) Logic have f: "\<not> fst (executeLogic h m conds c1)" by simp
    obtain x c' where e: "executeLogic h m conds c1 = (x, c')" by (cases "executeLogic h m conds c1")
    with f have nx: "\<not> x" by simp
    have c': "c' = push_log (''[logic] '' @ show_nat (length conds) @ '' conditions (''
                    @ logic_text m @ '') -> false'') c1"
      using e nx by (auto simp: executeLogic_def Let_def bool_text_def split: if_splits)
    show ?thesis
      unfolding loop using Logic e nx rs
      by (simp add: c' short_circuit_def read_clock_def push_log_def)
  qed (use assms(2) in simp_all)
qed

theorem false_condition_stops_witness:
  "steps_pass demo_host [price_step] [] start_context \<noteq> None
   \<and> evaluates_false demo_host high_price_step
        (snd (the (steps_pass demo_host [price_step] [] start_context)))
   \<and> success (fst (executeSteps demo_host [price_step, high_price_step, Log ''never'' None]
                     start_context))
   \<and> map stepId (stepResults (fst (executeSteps demo_host
                     [price_step, high_price_step, Log ''never'' None] start_context)))
       = [''price'', ''condition'']
   \<and> logs (snd (executeSteps demo_host [price_step, high_price_step, Log ''never'' None]
                   start_context))
       = [''[fetch:price] GET https://api.example/price -> 200'',
          ''[condition] price.body > 100 -> false'',
          ''[condition:price.body] Evaluated false, stopping execution.'']
   \<and> tick (snd (executeSteps demo_host [price_step, high_price_step, Log ''never'' None]
                   start_context)) = 3"
proof -
  define p where "p = the (steps_pass demo_host [price_step] [] start_context)"
  have some: "steps_pass demo_host [price_step] [] start_context \<noteq> None"
    by code_simp
  then have pass: "steps_pass demo_host [price_step] [] start_context = Some (fst p, snd p)"
    unfolding p_def by auto
  have ef: "evaluates_false demo_host high_price_step (snd p)"
    unfolding p_def by code_simp
  have ids: "map stepId (fst p) = [''price'']"
    unfolding p_def by code_simp
  have lg: "logs (snd p) = [''[fetch:price] GET https://api.example/price -> 200'']"
    unfolding p_def by code_simp
  have tk: "tick (snd p) = 2"
    unfolding p_def by code_simp
  have lines: "false_step_lines demo_host high_price_step
      = [''[condition] price.body > 100 -> false'',
         ''[condition:price.body] Evaluated false, stopping execution.'']"
    by code_simp
  have ty: "step_type high_price_step = ''condition''"
    by (simp add: high_price_step_def)
  from false_condition_stops [OF pass ef, of "[Log ''never'' None]"]
  have run: "executeSteps demo_host [price_step, high_price_step, Log ''never'' None] start_context
            = (\<lparr>success = True,
                stepResults = fst p @ [\<lparr>stepId = step_type high_price_step,
                                         step_output = Some (JBool False), step_error = None,
                                         timestamp = toISOString demo_host (tick (snd p))\<rparr>]\<rparr>,
               (snd p)\<lparr>logs := logs (snd p) @ false_step_lines demo_host high_price_step,
                        tick := Suc (tick (snd p))\<rparr>)"
    by simp
  show ?thesis
    using some ef unfolding run p_def [symmetric] by (simp add: ids lg tk lines ty)
qed

text \<open>
  C6, as stated, fails for a time-out of 0: \<^verbatim>\<open>executeFetch\<close> sets a timer only when
  \<^verbatim>\<open>step.timeout_ms\<close> is truthy, so a fetch step configured with \<^verbatim>\<open>timeout_ms = 0\<close> is never
  aborted. Its call to the slow server exceeds the 0 ms, yet the step goes through, its
  output is stored in the results under its id, and the next step runs.
\<close>

theorem zero_timeout_never_fires:
  "call_exceeds_timeout demo_host (demo_fetch ''slow'' ''https://slow.example/price'' (Some 0))
     start_context
   \<and> success (fst (executeSteps demo_host [zero_timeout_step, Log ''after'' None] start_context))
   \<and> map stepId (stepResults (fst (executeSteps demo_host [zero_timeout_step, Log ''after'' None]
                                      start_context))) = [''slow'', ''log'']
   \<and> map_of (results (snd (executeSteps demo_host [zero_timeout_step, Log ''after'' None]
                               start_context))) ''slow''
       = Some (JObj [(''status'', JNum (Fin 200)), (''headers'', JObj []),
                     (''body'', JNum (Fin 42))])"
  by code_simp

text \<open>
  C6, amended. Let the steps before a fetch step all go through, and let the call of the
  fetch step take longer than its \<^verbatim>\<open>timeout_ms\<close>, which is set and not zero. Then
  \<^verbatim>\<open>executeSteps\<close> returns at that step with \<^verbatim>\<open>success = false\<close>, whatever steps follow it;
  the result of the step carries the error \<^verbatim>\<open>Request timed out after <n>ms\<close> and no output,
  the error is logged, and the results are those the step found: nothing is written
  under its id, so the map has no entry for the id unless it had one at the start or an
  earlier fetch step of the same id wrote it.

  A fetch step whose \<^verbatim>\<open>timeout_ms\<close> is absent or 0 has no time-out: its call is not aborted
  however long it takes. When the call is rejected the step fails with the error of the
  call, when the body of the response cannot be read with the error of the reading, and
  otherwise the step goes through with an output and no error.
\<close>

theorem fetch_timeout_fails:
  "(steps_pass h pre [] c = Some (rs, c1) \<and> timeout_ms f = Some n \<and> n \<noteq> 0
      \<and> call_exceeds_timeout h f c1 \<longrightarrow>
      executeSteps h (pre @ Fetch f # post) c
        = (\<lparr>success = False,
            stepResults = rs @ [\<lparr>stepId = fetch_id f, step_output = None,
                step_error = Some (''Request timed out after '' @ show_nat n @ ''ms''),
                timestamp = toISOString h (Suc (tick c1))\<rparr>]\<rparr>,
           c1\<lparr>logs := logs c1 @ [''[fetch] Error: Request timed out after '' @ show_nat n @ ''ms''],
              tick := Suc (Suc (tick c1))\<rparr>)
      \<and> (fetch_id f \<notin> fst ` set (results c) \<union> set (fetch_ids pre) \<longrightarrow>
            map_of (results c1) (fetch_id f) = None))
   \<and> (timeout_ms f = None \<or> timeout_ms f = Some 0 \<longrightarrow>
        (\<forall>ms. \<not> aborted f ms)
        \<and> (\<forall>ms msg. network h (tick c1) (fetch_request f) = Rejected ms msg \<longrightarrow>
              fst (executeFetch h f c1) = Inl msg
              \<and> fst (run_step h (Fetch f) c1) = Return False)
        \<and> (\<forall>ms resp msg. network h (tick c1) (fetch_request f) = Responded ms resp
              \<and> resp_text resp = Inl msg \<longrightarrow>
              fst (executeFetch h f c1) = Inl msg
              \<and> fst (run_step h (Fetch f) c1) = Return False)
        \<and> (\<forall>ms resp body. network h (tick c1) (fetch_request f) = Responded ms resp
              \<and> resp_text resp = Inr body \<longrightarrow>
              (\<exists>out r c2. fst (executeFetch h f c1) = Inr out
                 \<and> run_step h (Fetch f) c1 = (Next, r, c2)
                 \<and> stepId r = fetch_id f \<and> step_output r = Some out \<and> step_error r = None
                 \<and> getProp h (results_object c2) (fetch_id f) = out)))"
proof (intro conjI impI allI)
  assume a: "steps_pass h pre [] c = Some (rs, c1) \<and> timeout_ms f = Some n \<and> n \<noteq> 0
      \<and> call_exceeds_timeout h f c1"
  then have pass: "steps_pass h pre [] c = Some (rs, c1)" by simp
  from steps_pass_results [OF pass]
  have dom: "fst ` set (results c1) \<subseteq> fst ` set (results c) \<union> set (fetch_ids pre)" by auto
  have loop: "executeSteps h (pre @ Fetch f # post) c = executeSteps_loop h (Fetch f # post) rs c1"
    unfolding executeSteps_def using steps_pass_loop [OF pass] .
  have ab: "aborted f (call_duration (network h (tick c1) (fetch_request f)))"
    using a by (auto simp: aborted_def call_exceeds_timeout_def)
  have msg: "timeout_message f = ''Request timed out after '' @ show_nat n @ ''ms''"
    using a by (simp add: timeout_message_def)
  have ef: "executeFetch h f c1 = (Inl (timeout_message f), c1\<lparr>tick := tick c1 + 1\<rparr>)"
    using ab by (cases "network h (tick c1) (fetch_request f)") (simp_all add: executeFetch_def Let_def)
  show "executeSteps h (pre @ Fetch f # post) c
        = (\<lparr>success = False,
            stepResults = rs @ [\<lparr>stepId = fetch_id f, step_output = None,
                step_error = Some (''Request timed out after '' @ show_nat n @ ''ms''),
                timestamp = toISOString h (Suc (tick c1))\<rparr>]\<rparr>,
           c1\<lparr>logs := logs c1 @ [''[fetch] Error: Request timed out after '' @ show_nat n @ ''ms''],
              tick := Suc (Suc (tick c1))\<rparr>)"
    unfolding loop using ef msg
    by (simp add: step_failed_def read_clock_def push_log_def)
  show "map_of (results c1) (fetch_id f) = None"
    if "fetch_id f \<notin> fst ` set (results c) \<union> set (fetch_ids pre)"
    using dom that by (auto simp: map_of_eq_None_iff)
next
  fix ms
  assume "timeout_ms f = None \<or> timeout_ms f = Some 0"
  then show "\<not> aborted f ms" by (auto simp: aborted_def)
next
  fix ms msg
  assume t: "timeout_ms f = None \<or> timeout_ms f = Some 0"
    and n: "network h (tick c1) (fetch_request f) = Rejected ms msg"
  from t have na: "\<not> aborted f ms" by (auto simp: aborted_def)
  show e: "fst (executeFetch h f c1) = Inl msg"
    using n na by (simp add: executeFetch_def Let_def)
  obtain c2 where "executeFetch h f c1 = (Inl msg, c2)"
    using e by (cases "executeFetch h f c1") simp
  then show "fst (run_step h (Fetch f) c1) = Return False"
    by (simp add: step_failed_eq)
next
  fix ms resp msg
  assume t: "timeout_ms f = None \<or> timeout_ms f = Some 0"
    and n: "network h (tick c1) (fetch_request f) = Responded ms resp \<and> resp_text resp = Inl msg"
  from t have na: "\<not> aborted f ms" by (auto simp: aborted_def)
  show e: "fst (executeFetch h f c1) = Inl msg"
    using n na by (simp add: executeFetch_def Let_def)
  obtain c2 where "executeFetch h f c1 = (Inl msg, c2)"
    using e by (cases "executeFetch h f c1") simp
  then show "fst (run_step h (Fetch f) c1) = Return False"
    by (simp add: step_failed_eq)
next
  fix ms resp body
  assume t: "timeout_ms f = None \<or> timeout_ms f = Some 0"
    and n: "network h (tick c1) (fetch_request f) = Responded ms resp \<and> resp_text resp = Inr body"
  from t have na: "\<not> aborted f ms" by (auto simp: aborted_def)
  obtain x c' where e: "executeFetch h f c1 = (x, c')" by (cases "executeFetch h f c1")
  obtain out where x: "x = Inr out"
    using e n na by (auto simp: executeFetch_def Let_def)
  have rs: "run_step h (Fetch f) c1
      = (Next,
         \<lparr>stepId = fetch_id f, step_output = Some out, step_error = None,
          timestamp = toISOString h (tick (assign_result (fetch_id f) out c'))\<rparr>,
         snd (read_clock h (assign_result (fetch_id f) out c')))"
    using e x by (simp add: step_done_eq)
  have stored: "getProp h (results_object (snd (read_clock h (assign_result (fetch_id f) out c'))))
                  (fetch_id f) = out"
    by (auto simp: results_object_def read_clock_def assign_result_def sets_prototype_def
          update_conv' split: option.splits)
  show "\<exists>out r c2. fst (executeFetch h f c1) = Inr out
                 \<and> run_step h (Fetch f) c1 = (Next, r, c2)
                 \<and> stepId r = fetch_id f \<and> step_output r = Some out \<and> step_error r = None
                 \<and> getProp h (results_object c2) (fetch_id f) = out"
    using e x rs stored by auto
qed


theorem fetch_timeout_fails_witness:
  "steps_pass demo_host [price_step] [] start_context \<noteq> None
   \<and> call_exceeds_timeout demo_host (demo_fetch ''slow'' ''https://slow.example/price'' (Some 1000))
        (snd (the (steps_pass demo_host [price_step] [] start_context)))
   \<and> \<not> success (fst (executeSteps demo_host [price_step, slow_step, Log ''never'' None]
                       start_context))
   \<and> map step_error (stepResults (fst (executeSteps demo_host
                     [price_step, slow_step, Log ''never'' None] start_context)))
       = [None, Some ''Request timed out after 1000ms'']
   \<and> map_of (results (snd (executeSteps demo_host [price_step, slow_step, Log ''never'' None]
                               start_context))) ''slow'' = None
   \<and> logs (snd (executeSteps demo_host [price_step, slow_step, Log ''never'' None]
                   start_context))
       = [''[fetch:price] GET https://api.example/price -> 200'',
          ''[fetch] Error: Request timed out after 1000ms'']
   \<and> timeout_ms (demo_fetch ''slow'' ''https://slow.example/price'' (Some 0)) = Some 0
   \<and> \<not> aborted (demo_fetch ''slow'' ''https://slow.example/price'' (Some 0)) 5000
   \<and> call_duration (network demo_host (tick start_context)
         (fetch_request (demo_fetch ''slow'' ''https://slow.example/price'' (Some 0)))) = 5000
   \<and> (\<exists>out r c2. run_step demo_host zero_timeout_step start_context = (Next, r, c2)
         \<and> step_output r = Some out \<and> step_error r = None)
   \<and> timeout_ms (demo_fetch ''slow'' ''https://slow.example/price'' None) = None
   \<and> \<not> aborted (demo_fetch ''slow'' ''https://slow.example/price'' None) 5000
   \<and> (\<exists>out r c2. run_step demo_host
                     (Fetch (demo_fetch ''slow'' ''https://slow.example/price'' None)) start_context
                   = (Next, r, c2)
         \<and> step_output r = Some out \<and> step_error r = None)
   \<and> network demo_host (tick start_context)
         (fetch_request (demo_fetch ''down'' ''https://down.example/price'' (Some 0)))
       = Rejected 3000 ''fetch failed''
   \<and> fst (executeFetch demo_host (demo_fetch ''down'' ''https://down.example/price'' (Some 0))
              start_context) = Inl ''fetch failed''
   \<and> fst (executeFetch demo_host (demo_fetch ''broken'' ''https://broken.example/price'' None)
              start_context) = Inl ''terminated''"
proof -
  let ?f = "demo_fetch ''slow'' ''https://slow.example/price'' (Some 1000)"
  let ?z = "demo_fetch ''slow'' ''https://slow.example/price'' (Some 0)"
  let ?a = "demo_fetch ''slow'' ''https://slow.example/price'' None"
  let ?resp = "\<lparr>resp_status = 200, resp_headers = [], resp_text = Inr ''42''\<rparr>"
  define p where "p = the (steps_pass demo_host [price_step] [] start_context)"
  have some: "steps_pass demo_host [price_step] [] start_context \<noteq> None"
    by code_simp
  then have pass: "steps_pass demo_host [price_step] [] start_context = Some (fst p, snd p)"
    unfolding p_def by auto
  have slow: "call_exceeds_timeout demo_host ?f (snd p)"
    unfolding p_def by code_simp
  have prem: "steps_pass demo_host [price_step] [] start_context = Some (fst p, snd p)
      \<and> timeout_ms ?f = Some 1000 \<and> (1000::nat) \<noteq> 0 \<and> call_exceeds_timeout demo_host ?f (snd p)"
    using pass slow by (simp add: demo_fetch_def)
  have first_ok: "map step_error (fst p) = [None]"
    unfolding p_def by code_simp
  have lg: "logs (snd p) = [''[fetch:price] GET https://api.example/price -> 200'']"
    unfolding p_def by code_simp
  have fresh: "fetch_id ?f \<notin> fst ` set (results start_context) \<union> set (fetch_ids [price_step])"
    by (simp add: demo_fetch_def start_context_def price_step_def)
  have shown: "show_nat 1000 = ''1000''" by code_simp
  note A = fetch_timeout_fails [where h = demo_host and pre = "[price_step]" and c = start_context
             and rs = "fst p" and ?c1.0 = "snd p" and f = ?f and n = 1000
             and post = "[Log ''never'' None]", THEN conjunct1, THEN mp, OF prem]
  have run: "executeSteps demo_host [price_step, slow_step, Log ''never'' None] start_context
        = (\<lparr>success = False,
            stepResults = fst p @ [\<lparr>stepId = fetch_id ?f, step_output = None,
                step_error = Some (''Request timed out after '' @ show_nat 1000 @ ''ms''),
                timestamp = toISOString demo_host (Suc (tick (snd p)))\<rparr>]\<rparr>,
           (snd p)\<lparr>logs := logs (snd p)
                       @ [''[fetch] Error: Request timed out after '' @ show_nat 1000 @ ''ms''],
                    tick := Suc (Suc (tick (snd p)))\<rparr>)"
    using A [THEN conjunct1] by (simp add: slow_step_def)
  have key: "map_of (results (snd p)) ''slow'' = None"
    using A [THEN conjunct2] fresh by (simp add: demo_fetch_def)
  have zt: "timeout_ms ?z = None \<or> timeout_ms ?z = Some 0"
    and at: "timeout_ms ?a = None \<or> timeout_ms ?a = Some 0"
    by (simp_all add: demo_fetch_def)
  have znet: "network demo_host (tick start_context) (fetch_request ?z) = Responded 5000 ?resp
      \<and> resp_text ?resp = Inr ''42''"
    by code_simp
  have anet: "network demo_host (tick start_context) (fetch_request ?a) = Responded 5000 ?resp
      \<and> resp_text ?resp = Inr ''42''"
    by code_simp
  note Z = fetch_timeout_fails [where h = demo_host and ?c1.0 = start_context and f = ?z,
             THEN conjunct2, THEN mp, OF zt]
  note N = fetch_timeout_fails [where h = demo_host and ?c1.0 = start_context and f = ?a,
             THEN conjunct2, THEN mp, OF at]
  have z1: "\<not> aborted ?z 5000" using Z by blast
  have a1: "\<not> aborted ?a 5000" using N by blast
  have z2: "\<exists>out r c2. run_step demo_host (Fetch ?z) start_context = (Next, r, c2)
         \<and> step_output r = Some out \<and> step_error r = None"
    using Z [THEN conjunct2, THEN conjunct2, THEN conjunct2, THEN spec, THEN spec, THEN spec,
             THEN mp, OF znet]
    by blast
  have a2: "\<exists>out r c2. run_step demo_host (Fetch ?a) start_context = (Next, r, c2)
         \<and> step_output r = Some out \<and> step_error r = None"
    using N [THEN conjunct2, THEN conjunct2, THEN conjunct2, THEN spec, THEN spec, THEN spec,
             THEN mp, OF anet]
    by blast
  let ?d = "demo_fetch ''down'' ''https://down.example/price'' (Some 0)"
  let ?b = "demo_fetch ''broken'' ''https://broken.example/price'' None"
  let ?bad = "\<lparr>resp_status = 200, resp_headers = [], resp_text = Inl ''terminated''\<rparr>"
  have dt: "timeout_ms ?d = None \<or> timeout_ms ?d = Some 0"
    and bt: "timeout_ms ?b = None \<or> timeout_ms ?b = Some 0"
    by (simp_all add: demo_fetch_def)
  have dnet: "network demo_host (tick start_context) (fetch_request ?d)
                = Rejected 3000 ''fetch failed''"
    by code_simp
  have bnet: "network demo_host (tick start_context) (fetch_request ?b) = Responded 3000 ?bad
      \<and> resp_text ?bad = Inl ''terminated''"
    by code_simp
  note D = fetch_timeout_fails [where h = demo_host and ?c1.0 = start_context and f = ?d,
             THEN conjunct2, THEN mp, OF dt]
  note B = fetch_timeout_fails [where h = demo_host and ?c1.0 = start_context and f = ?b,
             THEN conjunct2, THEN mp, OF bt]
  have d1: "fst (executeFetch demo_host ?d start_context) = Inl ''fetch failed''"
    using D [THEN conjunct2, THEN conjunct1, THEN spec, THEN spec, THEN mp, OF dnet]
    by blast
  have b1: "fst (executeFetch demo_host ?b start_context) = Inl ''terminated''"
    using B [THEN conjunct2, THEN conjunct2, THEN conjunct1, THEN spec, THEN spec, THEN spec,
             THEN mp, OF bnet]
    by blast
  have dur: "call_duration (network demo_host (tick start_context) (fetch_request ?z)) = 5000"
    using znet by simp
  have tz: "timeout_ms ?z = Some 0" and ta: "timeout_ms ?a = None"
    by (simp_all add: demo_fetch_def)
  show ?thesis
    using some slow key z1 a1 z2 a2 dur tz ta dnet d1 b1
    unfolding run p_def [symmetric] zero_timeout_step_def
    by (simp add: first_ok lg shown)
qed

subsection \<open>The run orchestrator\<close>

lemma executeSteps_loop_tick:
  "executeSteps_loop h ss acc c = (oc, c') \<Longrightarrow> tick c \<le> tick c'"
proof (induction ss arbitrary: acc c)
  case Nil
  then show ?case by simp
next
  case (Cons s ss)
  obtain ctl r c1 where rs: "run_step h s c = (ctl, r, c1)" by (cases "run_step h s c")
  have t: "tick c < tick c1" using run_step_ctx(1) [OF rs] .
  show ?case
  proof (cases ctl)
    case Next
    with Cons.prems rs have "executeSteps_loop h ss (acc @ [r]) c1 = (oc, c')" by simp
    from Cons.IH [OF this] t show ?thesis by simp
  next
    case (Return b)
    with Cons.prems rs t show ?thesis by auto
  qed
qed

text \<open>
  C3. \<^verbatim>\<open>runFlowNow\<close> returns a run record whatever the interpreter does. \<^verbatim>\<open>startedAt\<close> is the
  reading of the clock before the interpreter is called. When the interpreter returns an
  outcome, the record has the status of the outcome, its step results, the log lines of
  the context, and as \<^verbatim>\<open>finishedAt\<close> a reading of the clock after the interpreter. When the
  interpreter throws, the record has status failure, the single step result with
  \<^verbatim>\<open>stepId = "execution"\<close> and the message of the error, the message as last log line, and
  again a later reading of the clock as \<^verbatim>\<open>finishedAt\<close>. With the interpreter of this
  repository, \<^verbatim>\<open>finishedAt\<close> is read at a later interaction than \<^verbatim>\<open>startedAt\<close>.
\<close>

theorem runFlowNow_always_record:
  "(exec (steps flow)
       \<lparr>results = [], results_proto = None,
        logs = [''[system] Triggered by ''
                @ trigger_text (case opts of None \<Rightarrow> Manual | Some tr \<Rightarrow> tr)
                @ '' at '' @ toISOString h t],
        tick = t + 1\<rparr> = (Inr oc, c1) \<longrightarrow>
     runFlowNow_with h exec flow opts t =
       (\<lparr>run_id = randomUUID h (tick c1), flowId = flow_id flow, run_name = name flow,
         status = (if success oc then RunSuccess else RunFailure),
         run_trigger = Some (case opts of None \<Rightarrow> Manual | Some tr \<Rightarrow> tr),
         startedAt = toISOString h t, finishedAt = toISOString h (tick c1 + 1),
         run_logs = logs c1, run_steps = stepResults oc, run_flow = flow\<rparr>,
        tick c1 + 2))
   \<and> (exec (steps flow)
       \<lparr>results = [], results_proto = None,
        logs = [''[system] Triggered by ''
                @ trigger_text (case opts of None \<Rightarrow> Manual | Some tr \<Rightarrow> tr)
                @ '' at '' @ toISOString h t],
        tick = t + 1\<rparr> = (Inl msg, c1) \<longrightarrow>
     runFlowNow_with h exec flow opts t =
       (\<lparr>run_id = randomUUID h (tick c1 + 1), flowId = flow_id flow, run_name = name flow,
         status = RunFailure,
         run_trigger = Some (case opts of None \<Rightarrow> Manual | Some tr \<Rightarrow> tr),
         startedAt = toISOString h t, finishedAt = toISOString h (tick c1 + 2),
         run_logs = logs c1 @ [msg],
         run_steps = [\<lparr>stepId = ''execution'', step_output = None, step_error = Some msg,
                       timestamp = toISOString h (tick c1)\<rparr>],
         run_flow = flow\<rparr>,
        tick c1 + 3))
   \<and> startedAt (fst (runFlowNow_with h exec flow opts t)) = toISOString h t
   \<and> startedAt (fst (runFlowNow h flow opts t)) = toISOString h t
   \<and> (\<exists>k. t < k \<and> finishedAt (fst (runFlowNow h flow opts t)) = toISOString h k
           \<and> snd (runFlowNow h flow opts t) = k + 1)"
proof (intro conjI impI)
  let ?c0 = "\<lparr>results = [], results_proto = None,
        logs = [''[system] Triggered by ''
                @ trigger_text (case opts of None \<Rightarrow> Manual | Some tr \<Rightarrow> tr)
                @ '' at '' @ toISOString h t],
        tick = t + 1\<rparr>"
  show "startedAt (fst (runFlowNow_with h exec flow opts t)) = toISOString h t"
    by (simp add: runFlowNow_with_def Let_def split: prod.splits sum.splits)
  show "startedAt (fst (runFlowNow h flow opts t)) = toISOString h t"
    by (simp add: runFlowNow_def runFlowNow_with_def Let_def split: prod.splits sum.splits)
  obtain oc' c' where e: "executeSteps h (steps flow) ?c0 = (oc', c')"
    by (cases "executeSteps h (steps flow) ?c0")
  then have "tick ?c0 \<le> tick c'"
    unfolding executeSteps_def by (rule executeSteps_loop_tick)
  then have "t < tick c' + 1" by simp
  moreover have "finishedAt (fst (runFlowNow h flow opts t)) = toISOString h (tick c' + 1)"
    and "snd (runFlowNow h flow opts t) = tick c' + 2"
    using e by (simp_all add: runFlowNow_def runFlowNow_with_def Let_def)
  ultimately show "\<exists>k. t < k \<and> finishedAt (fst (runFlowNow h flow opts t)) = toISOString h k
           \<and> snd (runFlowNow h flow opts t) = k + 1"
    by (intro exI [of _ "tick c' + 1"]) simp
next
  assume "exec (steps flow)
       \<lparr>results = [], results_proto = None,
        logs = [''[system] Triggered by ''
                @ trigger_text (case opts of None \<Rightarrow> Manual | Some tr \<Rightarrow> tr)
                @ '' at '' @ toISOString h t],
        tick = t + 1\<rparr> = (Inr oc, c1)"
  then show "runFlowNow_with h exec flow opts t =
       (\<lparr>run_id = randomUUID h (tick c1), flowId = flow_id flow, run_name = name flow,
         status = (if success oc then RunSuccess else RunFailure),
         run_trigger = Some (case opts of None \<Rightarrow> Manual | Some tr \<Rightarrow> tr),
         startedAt = toISOString h t, finishedAt = toISOString h (tick c1 + 1),
         run_logs = logs c1, run_steps = stepResults oc, run_flow = flow\<rparr>,
        tick c1 + 2)"
    by (simp add: runFlowNow_with_def Let_def)
next
  assume "exec (steps flow)
       \<lparr>results = [], results_proto = None,
        logs = [''[system] Triggered by ''
                @ trigger_text (case opts of None \<Rightarrow> Manual | Some tr \<Rightarrow> tr)
                @ '' at '' @ toISOString h t],
        tick = t + 1\<rparr> = (Inl msg, c1)"
  then show "runFlowNow_with h exec flow opts t =
       (\<lparr>run_id = randomUUID h (tick c1 + 1), flowId = flow_id flow, run_name = name flow,
         status = RunFailure,
         run_trigger = Some (case opts of None \<Rightarrow> Manual | Some tr \<Rightarrow> tr),
         startedAt = toISOString h t, finishedAt = toISOString h (tick c1 + 2),
         run_logs = logs c1 @ [msg],
         run_steps = [\<lparr>stepId = ''execution'', step_output = None, step_error = Some msg,
                       timestamp = toISOString h (tick c1)\<rparr>],
         run_flow = flow\<rparr>,
        tick c1 + 3)"
    by (simp add: runFlowNow_with_def Let_def)
qed


theorem runFlowNow_always_record_witness:
  "status (fst (runFlowNow_with demo_host (\<lambda>ss c. (Inl ''boom'', c)) demo_flow (Some Cron) 0))
     = RunFailure
   \<and> run_steps (fst (runFlowNow_with demo_host (\<lambda>ss c. (Inl ''boom'', c)) demo_flow (Some Cron) 0))
     = [\<lparr>stepId = ''execution'', step_output = None, step_error = Some ''boom'',
         timestamp = ''t1''\<rparr>]
   \<and> run_logs (fst (runFlowNow_with demo_host (\<lambda>ss c. (Inl ''boom'', c)) demo_flow (Some Cron) 0))
     = [''[system] Triggered by cron at t0'', ''boom'']
   \<and> startedAt (fst (runFlowNow_with demo_host (\<lambda>ss c. (Inl ''boom'', c)) demo_flow (Some Cron) 0))
     = ''t0''
   \<and> finishedAt (fst (runFlowNow_with demo_host (\<lambda>ss c. (Inl ''boom'', c)) demo_flow (Some Cron) 0))
     = ''t3''
   \<and> status (fst (runFlowNow_with demo_host (\<lambda>ss c. (Inr \<lparr>success = True, stepResults = []\<rparr>, c))
                     demo_flow None 0)) = RunSuccess
   \<and> startedAt (fst (runFlowNow demo_host demo_flow None 0)) = ''t0''"
proof -
  let ?c0 = "\<lparr>results = [], results_proto = None, logs = [''[system] Triggered by cron at t0''], tick = 1\<rparr>"
  let ?m0 = "\<lparr>results = [], results_proto = None, logs = [''[system] Triggered by manual at t0''], tick = 1\<rparr>"
  have stamps: "toISOString demo_host 0 = ''t0''" "toISOString demo_host (Suc 0) = ''t1''"
    "toISOString demo_host 2 = ''t2''" "toISOString demo_host 3 = ''t3''"
    "toISOString demo_host (Suc (Suc 0)) = ''t2''"
    "toISOString demo_host (Suc (Suc (Suc 0))) = ''t3''"
    by code_simp+
  note T = runFlowNow_always_record [of "\<lambda>ss c. (Inl ''boom'', c)" demo_flow "Some Cron" demo_host 0
             "\<lparr>success = True, stepResults = []\<rparr>" ?c0 "''boom''"]
  note U = runFlowNow_always_record [of "\<lambda>ss c. (Inr \<lparr>success = True, stepResults = []\<rparr>, c)"
             demo_flow None demo_host 0 "\<lparr>success = True, stepResults = []\<rparr>" ?m0 "''boom''"]
  have thrown: "runFlowNow_with demo_host (\<lambda>ss c. (Inl ''boom'', c)) demo_flow (Some Cron) 0 =
       (\<lparr>run_id = randomUUID demo_host (tick ?c0 + 1), flowId = flow_id demo_flow,
         run_name = name demo_flow, status = RunFailure, run_trigger = Some Cron,
         startedAt = toISOString demo_host 0, finishedAt = toISOString demo_host (tick ?c0 + 2),
         run_logs = logs ?c0 @ [''boom''],
         run_steps = [\<lparr>stepId = ''execution'', step_output = None, step_error = Some ''boom'',
                       timestamp = toISOString demo_host (tick ?c0)\<rparr>],
         run_flow = demo_flow\<rparr>,
        tick ?c0 + 3)"
    using T by (simp add: stamps)
  have returned: "runFlowNow_with demo_host (\<lambda>ss c. (Inr \<lparr>success = True, stepResults = []\<rparr>, c))
                     demo_flow None 0 =
       (\<lparr>run_id = randomUUID demo_host (tick ?m0), flowId = flow_id demo_flow,
         run_name = name demo_flow, status = RunSuccess, run_trigger = Some Manual,
         startedAt = toISOString demo_host 0, finishedAt = toISOString demo_host (tick ?m0 + 1),
         run_logs = logs ?m0, run_steps = [], run_flow = demo_flow\<rparr>,
        tick ?m0 + 2)"
    using U by (simp add: stamps)
  have started: "startedAt (fst (runFlowNow demo_host demo_flow None 0)) = ''t0''"
    using U by (simp add: stamps)
  show ?thesis
    unfolding thrown returned using started by (simp add: stamps)
qed

end
